theory Spec2Isabelle
  imports Main "HOL-Library.Word"
begin

unbundle bit_operations_syntax

section \<open>USBasp: the programming-session state machine of main.c\<close>

text \<open>
  The firmware is built for an ATmega8 with avr-gcc (the header comment of main.c names the
  target), so \<^verbatim>\<open>uchar\<close> is 8 bits, \<^verbatim>\<open>int\<close> and \<^verbatim>\<open>unsigned int\<close> are 16 bits,
  \<^verbatim>\<open>unsigned long\<close> is 32 bits and memory is little-endian. The static variables of main.c
  are the fields of one record, with the widths the declarations give them:
  \<^verbatim>\<open>prog_pagesize\<close> is an \<^verbatim>\<open>unsigned int\<close> whereas \<^verbatim>\<open>prog_pagecounter\<close> is a \<^verbatim>\<open>uchar\<close>.
\<close>

type_synonym u8 = "8 word"
type_synonym u16 = "16 word"
type_synonym u32 = "32 word"

text \<open>A \<^verbatim>\<open>uchar *\<close> argument is the memory it points to, indexed by the offset.\<close>

type_synonym buffer = "nat \<Rightarrow> u8"

text \<open>
  Modelled from the spec: usbasp.h, which defines the \<^verbatim>\<open>PROG_STATE_*\<close> values that
  \<^verbatim>\<open>prog_state\<close> ranges over, is absent. The spec gives the mode as the enumeration
  Idle, ReadFlash, ReadEeprom, WriteFlash, WriteEeprom; the constructors keep the names
  main.c uses.
\<close>

datatype prog_state_t =
  PROG_STATE_IDLE
| PROG_STATE_WRITEFLASH
| PROG_STATE_READFLASH
| PROG_STATE_READEEPROM
| PROG_STATE_WRITEEEPROM

text \<open>
  The other constants main.c takes from the absent headers are parameters of the model:
  the opcode bytes, the two block-flag masks, the two clock presets and the bit number of
  the clock strap.
\<close>

record usbasp_h =
  USBASP_FUNC_CONNECT :: u8
  USBASP_FUNC_DISCONNECT :: u8
  USBASP_FUNC_TRANSMIT :: u8
  USBASP_FUNC_READFLASH :: u8
  USBASP_FUNC_READEEPROM :: u8
  USBASP_FUNC_ENABLEPROG :: u8
  USBASP_FUNC_WRITEFLASH :: u8
  USBASP_FUNC_WRITEEEPROM :: u8
  USBASP_FUNC_SETLONGADDRESS :: u8
  USBASP_FUNC_SETISPSCK :: u8
  PROG_BLOCKFLAG_FIRST :: u8
  PROG_BLOCKFLAG_LAST :: u8
  USBASP_ISP_SCK_AUTO :: u8
  USBASP_ISP_SCK_8 :: u8
  SLOW_SCK_NUM :: nat

text \<open>
  The target programming transport (isp.c) and the board are external. What they answer is
  a parameter, a function of the arguments of the call: the byte a read returns at an
  address, the byte a raw transmit returns, the status of entering programming mode, and
  the value read from the strap's input port.
\<close>

record target =
  ispTransmit :: "u8 \<Rightarrow> u8"
  ispEnterProgrammingMode :: u8
  ispReadFlash :: "u32 \<Rightarrow> u8"
  ispReadEEPROM :: "u32 \<Rightarrow> u8"
  SLOW_SCK_PIN :: u8

text \<open>
  Every call main.c makes to the transport or to the LED is recorded, in order, with the
  values of the argument expressions at the call.
\<close>

datatype event =
  IspSetSCKOption u8
| LedRedOn
| LedRedOff
| IspConnect
| IspDisconnect
| IspTransmit u8
| IspEnterProgrammingMode
| IspReadFlash u32
| IspReadEEPROM u32
| IspWriteFlash u32 u8 u8
| IspFlushPage u32 u8
| IspWriteEEPROM u32 u8

datatype msgptr = NoBuffer | ReplyBuffer

record session =
  replyBuffer :: buffer
  prog_state :: prog_state_t
  prog_sck :: u8
  prog_address_newmode :: u8
  prog_address :: u32
  prog_nbytes :: u16
  prog_pagesize :: u16
  prog_blockflags :: u8
  prog_pagecounter :: u8
  usbMsgPtr :: msgptr
  calls :: "event list"

text \<open>The initial values of the static variables.\<close>

definition session_init :: "usbasp_h \<Rightarrow> session" where
  "session_init c =
     \<lparr>replyBuffer = (\<lambda>_. 0), prog_state = PROG_STATE_IDLE, prog_sck = USBASP_ISP_SCK_AUTO c,
      prog_address_newmode = 0, prog_address = 0, prog_nbytes = 0, prog_pagesize = 0,
      prog_blockflags = 0, prog_pagecounter = 0, usbMsgPtr = NoBuffer, calls = []\<rparr>"

definition call :: "event \<Rightarrow> session \<Rightarrow> session" where
  "call e s = s\<lparr>calls := calls s @ [e]\<rparr>"

subsection \<open>Decoding the command descriptor\<close>

text \<open>
  \<^verbatim>\<open>(data[3] << 8) | data[2]\<close> is computed in the 16-bit \<^verbatim>\<open>int\<close> the bytes are
  promoted to. Stored in the \<^verbatim>\<open>unsigned int prog_nbytes\<close> it keeps its 16 bits; stored in
  the \<^verbatim>\<open>unsigned long prog_address\<close> it is converted from \<^verbatim>\<open>int\<close>, which extends the
  sign: an inline address with \<^verbatim>\<open>data[3] >= 0x80\<close> arrives with the upper half 0xFFFF.
\<close>

definition int16_of_bytes :: "u8 \<Rightarrow> u8 \<Rightarrow> u16" where
  "int16_of_bytes hi lo = push_bit 8 (ucast hi) OR ucast lo"

definition inline_address :: "buffer \<Rightarrow> u32" where
  "inline_address data = scast (int16_of_bytes (data 3) (data 2))"

definition inline_nbytes :: "buffer \<Rightarrow> u16" where
  "inline_nbytes data = int16_of_bytes (data 7) (data 6)"

text \<open>\<^verbatim>\<open>*((unsigned long*) &data[2])\<close> on the little-endian AVR.\<close>

definition long_address :: "buffer \<Rightarrow> u32" where
  "long_address data =
     ucast (data 2) OR push_bit 8 (ucast (data 3)) OR push_bit 16 (ucast (data 4))
       OR push_bit 24 (ucast (data 5))"

definition set_inline_address :: "buffer \<Rightarrow> session \<Rightarrow> session" where
  "set_inline_address data s =
     (if prog_address_newmode s = 0 then s\<lparr>prog_address := inline_address data\<rparr> else s)"

subsection \<open>usbFunctionSetup\<close>

definition usbFunctionSetup :: "usbasp_h \<Rightarrow> target \<Rightarrow> buffer \<Rightarrow> session \<Rightarrow> u8 \<times> session" where
  "usbFunctionSetup c tg data s =
    (let (len, s) =
      (if data 1 = USBASP_FUNC_CONNECT c then
         let s = (if SLOW_SCK_PIN tg AND push_bit (SLOW_SCK_NUM c) 1 = 0
                  then call (IspSetSCKOption (USBASP_ISP_SCK_8 c)) s
                  else call (IspSetSCKOption (prog_sck s)) s);
             s = s\<lparr>prog_address_newmode := 0\<rparr>;
             s = call LedRedOn s;
             s = call IspConnect s
         in (0, s)
       else if data 1 = USBASP_FUNC_DISCONNECT c then
         let s = call IspDisconnect s;
             s = call LedRedOff s
         in (0, s)
       else if data 1 = USBASP_FUNC_TRANSMIT c then
         let s = (call (IspTransmit (data 2)) s)
                   \<lparr>replyBuffer := (replyBuffer s)(0 := ispTransmit tg (data 2))\<rparr>;
             s = (call (IspTransmit (data 3)) s)
                   \<lparr>replyBuffer := (replyBuffer s)(1 := ispTransmit tg (data 3))\<rparr>;
             s = (call (IspTransmit (data 4)) s)
                   \<lparr>replyBuffer := (replyBuffer s)(2 := ispTransmit tg (data 4))\<rparr>;
             s = (call (IspTransmit (data 5)) s)
                   \<lparr>replyBuffer := (replyBuffer s)(3 := ispTransmit tg (data 5))\<rparr>
         in (4, s)
       else if data 1 = USBASP_FUNC_READFLASH c then
         let s = set_inline_address data s;
             s = s\<lparr>prog_nbytes := inline_nbytes data\<rparr>;
             s = s\<lparr>prog_state := PROG_STATE_READFLASH\<rparr>
         in (0xff, s)
       else if data 1 = USBASP_FUNC_READEEPROM c then
         let s = set_inline_address data s;
             s = s\<lparr>prog_nbytes := inline_nbytes data\<rparr>;
             s = s\<lparr>prog_state := PROG_STATE_READEEPROM\<rparr>
         in (0xff, s)
       else if data 1 = USBASP_FUNC_ENABLEPROG c then
         let s = (call IspEnterProgrammingMode s)
                   \<lparr>replyBuffer := (replyBuffer s)(0 := ispEnterProgrammingMode tg)\<rparr>
         in (1, s)
       else if data 1 = USBASP_FUNC_WRITEFLASH c then
         let s = set_inline_address data s;
             s = s\<lparr>prog_pagesize := ucast (data 4)\<rparr>;
             s = s\<lparr>prog_blockflags := data 5 AND 0x0F\<rparr>;
             s = s\<lparr>prog_pagesize := prog_pagesize s + push_bit 4 (ucast (data 5) AND 0xF0)\<rparr>;
             s = (if prog_blockflags s AND PROG_BLOCKFLAG_FIRST c \<noteq> 0
                  then s\<lparr>prog_pagecounter := ucast (prog_pagesize s)\<rparr> else s);
             s = s\<lparr>prog_nbytes := inline_nbytes data\<rparr>;
             s = s\<lparr>prog_state := PROG_STATE_WRITEFLASH\<rparr>
         in (0xff, s)
       else if data 1 = USBASP_FUNC_WRITEEEPROM c then
         let s = set_inline_address data s;
             s = s\<lparr>prog_pagesize := 0\<rparr>;
             s = s\<lparr>prog_blockflags := 0\<rparr>;
             s = s\<lparr>prog_nbytes := inline_nbytes data\<rparr>;
             s = s\<lparr>prog_state := PROG_STATE_WRITEEEPROM\<rparr>
         in (0xff, s)
       else if data 1 = USBASP_FUNC_SETLONGADDRESS c then
         let s = s\<lparr>prog_address_newmode := 1\<rparr>;
             s = s\<lparr>prog_address := long_address data\<rparr>
         in (0, s)
       else if data 1 = USBASP_FUNC_SETISPSCK c then
         let s = s\<lparr>prog_sck := data 2\<rparr>;
             s = s\<lparr>replyBuffer := (replyBuffer s)(0 := 0)\<rparr>
         in (1, s)
       else (0, s))
     in (len, s\<lparr>usbMsgPtr := ReplyBuffer\<rparr>))"

subsection \<open>usbFunctionRead\<close>

text \<open>One pass through the body of the \<^verbatim>\<open>for\<close> loop, at index \<open>i\<close>.\<close>

definition read_byte :: "target \<Rightarrow> nat \<Rightarrow> buffer \<times> session \<Rightarrow> buffer \<times> session" where
  "read_byte tg i ds =
    (let (data, s) = ds;
         (data, s) =
           (if prog_state s = PROG_STATE_READFLASH
            then (data(i := ispReadFlash tg (prog_address s)),
                  call (IspReadFlash (prog_address s)) s)
            else (data(i := ispReadEEPROM tg (prog_address s)),
                  call (IspReadEEPROM (prog_address s)) s))
     in (data, s\<lparr>prog_address := prog_address s + 1\<rparr>))"

text \<open>\<^verbatim>\<open>for (i = 0; i < len; i++)\<close> with \<^verbatim>\<open>uchar i\<close>, entered at the current value of \<open>i\<close>.\<close>

function read_loop :: "target \<Rightarrow> u8 \<Rightarrow> u8 \<Rightarrow> buffer \<times> session \<Rightarrow> buffer \<times> session" where
  "read_loop tg len i ds =
     (if i < len then read_loop tg len (i + 1) (read_byte tg (unat i) ds) else ds)"
  by pat_completeness auto
termination
  by (relation "measure (\<lambda>(tg, len, i, ds). unat len - unat i)")
     (simp, simp, unat_arith)

declare read_loop.simps [simp del]

definition usbFunctionRead :: "target \<Rightarrow> buffer \<Rightarrow> u8 \<Rightarrow> session \<Rightarrow> u8 \<times> buffer \<times> session" where
  "usbFunctionRead tg data len s =
    (if prog_state s \<noteq> PROG_STATE_READFLASH \<and> prog_state s \<noteq> PROG_STATE_READEEPROM
     then (0xff, data, s)
     else
       let (data, s) = read_loop tg len 0 (data, s);
           s = (if len < 8 then s\<lparr>prog_state := PROG_STATE_IDLE\<rparr> else s)
       in (len, data, s))"

subsection \<open>usbFunctionWrite\<close>

text \<open>
  One pass through the body of the \<^verbatim>\<open>for\<close> loop for the byte \<open>d = data[i]\<close>; the local
  \<^verbatim>\<open>retVal\<close> travels with the state.
\<close>

definition write_byte :: "usbasp_h \<Rightarrow> u8 \<Rightarrow> u8 \<times> session \<Rightarrow> u8 \<times> session" where
  "write_byte c d rs =
    (let (retVal, s) = rs;
         s = (if prog_state s = PROG_STATE_WRITEFLASH then
                (if prog_pagesize s = 0 then
                   call (IspWriteFlash (prog_address s) d 1) s
                 else
                   let s = call (IspWriteFlash (prog_address s) d 0) s;
                       s = s\<lparr>prog_pagecounter := prog_pagecounter s - 1\<rparr>
                   in if prog_pagecounter s = 0
                      then (call (IspFlushPage (prog_address s) d) s)
                             \<lparr>prog_pagecounter := ucast (prog_pagesize s)\<rparr>
                      else s)
              else call (IspWriteEEPROM (prog_address s) d) s);
         s = s\<lparr>prog_nbytes := prog_nbytes s - 1\<rparr>;
         (retVal, s) =
           (if prog_nbytes s = 0 then
              let s = s\<lparr>prog_state := PROG_STATE_IDLE\<rparr>;
                  s = (if prog_blockflags s AND PROG_BLOCKFLAG_LAST c \<noteq> 0
                          \<and> ucast (prog_pagecounter s) \<noteq> prog_pagesize s
                       then call (IspFlushPage (prog_address s) d) s else s)
              in (1, s)
            else (retVal, s))
     in (retVal, s\<lparr>prog_address := prog_address s + 1\<rparr>))"

function write_loop :: "usbasp_h \<Rightarrow> buffer \<Rightarrow> u8 \<Rightarrow> u8 \<Rightarrow> u8 \<times> session \<Rightarrow> u8 \<times> session" where
  "write_loop c data len i rs =
     (if i < len then write_loop c data len (i + 1) (write_byte c (data (unat i)) rs) else rs)"
  by pat_completeness auto
termination
  by (relation "measure (\<lambda>(c, data, len, i, rs). unat len - unat i)")
     (simp, simp, unat_arith)

declare write_loop.simps [simp del]

definition usbFunctionWrite :: "usbasp_h \<Rightarrow> buffer \<Rightarrow> u8 \<Rightarrow> session \<Rightarrow> u8 \<times> session" where
  "usbFunctionWrite c data len s =
    (if prog_state s \<noteq> PROG_STATE_WRITEFLASH \<and> prog_state s \<noteq> PROG_STATE_WRITEEEPROM
     then (0xff, s)
     else write_loop c data len 0 (0, s))"

subsection \<open>Sessions, as the host transport drives them\<close>

text \<open>
  The opcodes the dispatcher compares \<^verbatim>\<open>data[1]\<close> with, in the order of its chain.
\<close>

definition opcodes :: "usbasp_h \<Rightarrow> u8 list" where
  "opcodes c =
     [USBASP_FUNC_CONNECT c, USBASP_FUNC_DISCONNECT c, USBASP_FUNC_TRANSMIT c,
      USBASP_FUNC_READFLASH c, USBASP_FUNC_READEEPROM c, USBASP_FUNC_ENABLEPROG c,
      USBASP_FUNC_WRITEFLASH c, USBASP_FUNC_WRITEEEPROM c, USBASP_FUNC_SETLONGADDRESS c,
      USBASP_FUNC_SETISPSCK c]"

text \<open>A chunk of payload as the buffer handed to the engine.\<close>

definition buffer_of :: "u8 list \<Rightarrow> buffer" where
  "buffer_of bs = (\<lambda>i. if i < length bs then bs ! i else 0)"

text \<open>The loop of usbFunctionWrite over the bytes of a chunk, as a list.\<close>

definition write_bytes :: "usbasp_h \<Rightarrow> u8 list \<Rightarrow> u8 \<times> session \<Rightarrow> u8 \<times> session" where
  "write_bytes c bs rs = foldl (\<lambda>rs d. write_byte c d rs) rs bs"

text \<open>
  The transport offers the payload of a write session chunk by chunk, one call of
  usbFunctionWrite for each; the results of the calls are collected. The length goes
  through the \<^verbatim>\<open>uchar len\<close>, so a chunk is meant to have fewer than 256 bytes.
\<close>

fun write_chunks :: "usbasp_h \<Rightarrow> u8 list list \<Rightarrow> session \<Rightarrow> u8 list \<times> session" where
  "write_chunks c [] s = ([], s)"
| "write_chunks c (ch # chs) s =
     (let (r, s) = usbFunctionWrite c (buffer_of ch) (of_nat (length ch)) s;
          (rs, s) = write_chunks c chs s
      in (r # rs, s))"

text \<open>
  The transport asks for the data of a read session chunk by chunk; each call yields its
  result and the bytes it put at the offsets below the requested length.
\<close>

fun read_chunks :: "target \<Rightarrow> u8 list \<Rightarrow> session \<Rightarrow> (u8 \<times> u8 list) list \<times> session" where
  "read_chunks tg [] s = ([], s)"
| "read_chunks tg (len # lens) s =
     (let (r, data, s) = usbFunctionRead tg (\<lambda>_. 0) len s;
          (out, s) = read_chunks tg lens s
      in ((r, map data [0..<unat len]) # out, s))"

text \<open>How the transport cuts a read of \<open>N\<close> bytes: full chunks of 8, then the short one.\<close>

definition read_chunking :: "nat \<Rightarrow> u8 list" where
  "read_chunking N = replicate (N div 8) 8 @ [of_nat (N mod 8)]"

text \<open>
  The byte of the target at an address, in flash or EEPROM as the mode says, the call that
  fetches it, and the \<open>n\<close> bytes from an address on.
\<close>

definition target_byte :: "target \<Rightarrow> prog_state_t \<Rightarrow> u32 \<Rightarrow> u8" where
  "target_byte tg m a =
     (if m = PROG_STATE_READFLASH then ispReadFlash tg a else ispReadEEPROM tg a)"

definition read_call :: "prog_state_t \<Rightarrow> u32 \<Rightarrow> event" where
  "read_call m a = (if m = PROG_STATE_READFLASH then IspReadFlash a else IspReadEEPROM a)"

definition target_bytes :: "target \<Rightarrow> prog_state_t \<Rightarrow> u32 \<Rightarrow> nat \<Rightarrow> u8 list" where
  "target_bytes tg m a n = map (\<lambda>k. target_byte tg m (a + of_nat k)) [0..<n]"

fun is_flush :: "event \<Rightarrow> bool" where
  "is_flush (IspFlushPage a d) = True"
| "is_flush _ = False"

text \<open>
  What the spec expects of one full page: every byte buffered at its address without
  commit, then one flush with the address and the value of the page's last byte.
\<close>

definition buffered_calls :: "u32 \<Rightarrow> u8 list \<Rightarrow> event list" where
  "buffered_calls a bs = map (\<lambda>(i, b). IspWriteFlash (a + of_nat i) b 0) (enumerate 0 bs)"

definition page_calls :: "u32 \<Rightarrow> u8 list \<Rightarrow> event list" where
  "page_calls a bs =
     buffered_calls a bs @ [IspFlushPage (a + of_nat (length bs - 1)) (last bs)]"

text \<open>The \<open>j\<close>-th page of \<open>P\<close> bytes of a payload written from the address \<open>a\<close> on.\<close>

definition nth_page_calls :: "nat \<Rightarrow> u32 \<Rightarrow> u8 list \<Rightarrow> nat \<Rightarrow> event list" where
  "nth_page_calls P a bs j = page_calls (a + of_nat (j * P)) (take P (drop (j * P) bs))"

text \<open>The invariant of the spec's data model for paged flash writes.\<close>

definition page_inv :: "session \<Rightarrow> bool" where
  "page_inv s \<longleftrightarrow> 0 < unat (prog_pagecounter s) \<and> unat (prog_pagecounter s) \<le> unat (prog_pagesize s)"

subsection \<open>A sample configuration\<close>

text \<open>
  Concrete values for the parameters, used where a statement is evaluated: pairwise
  distinct opcodes, First = 0x01 as in the spec's scenario, Last = 0x02.
\<close>

definition sample_h :: usbasp_h where
  "sample_h =
     \<lparr>USBASP_FUNC_CONNECT = 1, USBASP_FUNC_DISCONNECT = 2, USBASP_FUNC_TRANSMIT = 3,
      USBASP_FUNC_READFLASH = 4, USBASP_FUNC_READEEPROM = 7, USBASP_FUNC_ENABLEPROG = 5,
      USBASP_FUNC_WRITEFLASH = 6, USBASP_FUNC_WRITEEEPROM = 8,
      USBASP_FUNC_SETLONGADDRESS = 9, USBASP_FUNC_SETISPSCK = 10,
      PROG_BLOCKFLAG_FIRST = 1, PROG_BLOCKFLAG_LAST = 2,
      USBASP_ISP_SCK_AUTO = 0, USBASP_ISP_SCK_8 = 5, SLOW_SCK_NUM = 2\<rparr>"

text \<open>A target whose flash holds the low address byte and whose EEPROM holds its complement.\<close>

definition sample_target :: target where
  "sample_target =
     \<lparr>ispTransmit = (\<lambda>b. b), ispEnterProgrammingMode = 0, ispReadFlash = (\<lambda>a. ucast a),
      ispReadEEPROM = (\<lambda>a. NOT (ucast a)), SLOW_SCK_PIN = 4\<rparr>"

text \<open>
  The spec's read scenario: ReadEeprom(addr = 0x10, nbytes = 10) issued at start-up.
\<close>

definition sample_read_start :: session where
  "sample_read_start =
     snd (usbFunctionSetup sample_h sample_target (buffer_of [0, 7, 0x10, 0, 0, 0, 10, 0])
            (session_init sample_h))"

text \<open>
  Three write sessions at start-up: WriteEeprom(addr = 0x20, nbytes = 3), an unpaged
  WriteFlash(addr = 0, pageSize = 0, flags = 0, nbytes = 2), and the same WriteFlash with
  nbytes = 0.
\<close>

definition sample_eeprom_write_start :: session where
  "sample_eeprom_write_start =
     snd (usbFunctionSetup sample_h sample_target (buffer_of [0, 8, 0x20, 0, 0, 0, 3, 0])
            (session_init sample_h))"

definition sample_flash_write_start :: session where
  "sample_flash_write_start =
     snd (usbFunctionSetup sample_h sample_target (buffer_of [0, 6, 0, 0, 0, 0, 2, 0])
            (session_init sample_h))"

definition sample_zero_write_start :: session where
  "sample_zero_write_start =
     snd (usbFunctionSetup sample_h sample_target (buffer_of [0, 6, 0, 0, 0, 0, 0, 0])
            (session_init sample_h))"

text \<open>
  Paged flash writes with a page of 4 bytes. Two single-block sessions from start-up,
  WriteFlash(addr = 0x100, pageSize = 4, flags = First+Last) with 8 and with 6 bytes. A
  write in several blocks: the first block, WriteFlash(addr = 0, pageSize = 4, flags = First,
  nbytes = 3) with its three bytes, leaves one byte missing to the page; the command of the
  next block follows, either WriteFlash(addr = 3, pageSize = 4, flags = none, nbytes = 4) or
  WriteFlash(addr = 3, pageSize = 4, flags = Last, nbytes = 2). And a first block with a
  page of 256 bytes, WriteFlash(addr = 0, pageSizeLow = 0x00, flagsByte = 0x11,
  nbytes = 256), or of 257 bytes, WriteFlash(addr = 0, pageSizeLow = 0x01, flagsByte = 0x11,
  nbytes = 257).
\<close>

definition sample_paged_start :: session where
  "sample_paged_start =
     snd (usbFunctionSetup sample_h sample_target (buffer_of [0, 6, 0x00, 0x01, 4, 0x03, 8, 0])
            (session_init sample_h))"

definition sample_short_start :: session where
  "sample_short_start =
     snd (usbFunctionSetup sample_h sample_target (buffer_of [0, 6, 0x00, 0x01, 4, 0x03, 6, 0])
            (session_init sample_h))"

definition sample_first_block_done :: session where
  "sample_first_block_done =
     snd (write_chunks sample_h [[0xC1, 0xC2, 0xC3]]
       (snd (usbFunctionSetup sample_h sample_target (buffer_of [0, 6, 0, 0, 4, 0x01, 3, 0])
               (session_init sample_h))))"

definition sample_next_block_start :: session where
  "sample_next_block_start =
     snd (usbFunctionSetup sample_h sample_target (buffer_of [0, 6, 3, 0, 4, 0x00, 4, 0])
            sample_first_block_done)"

definition sample_last_block_start :: session where
  "sample_last_block_start =
     snd (usbFunctionSetup sample_h sample_target (buffer_of [0, 6, 3, 0, 4, 0x02, 2, 0])
            sample_first_block_done)"

definition sample_page256_start :: session where
  "sample_page256_start =
     snd (usbFunctionSetup sample_h sample_target (buffer_of [0, 6, 0, 0, 0x00, 0x11, 0x00, 0x01])
            (session_init sample_h))"

definition sample_page257_start :: session where
  "sample_page257_start =
     snd (usbFunctionSetup sample_h sample_target (buffer_of [0, 6, 0, 0, 0x01, 0x11, 0x01, 0x01])
            (session_init sample_h))"

section \<open>Properties\<close>

subsection \<open>The loops, byte by byte\<close>

lemma unat_succ_less: "i < (len::u8) \<Longrightarrow> unat (i + 1) = Suc (unat i)"
  by unat_arith

lemma read_loop_foldl:
  "read_loop tg len i ds = foldl (\<lambda>ds k. read_byte tg k ds) ds [unat i..<unat len]"
proof (induction tg len i ds rule: read_loop.induct)
  case (1 tg len i ds)
  show ?case
  proof (cases "i < len")
    case True
    then have "[unat i..<unat len] = unat i # [unat (i + 1)..<unat len]"
      by (simp add: unat_succ_less upt_conv_Cons word_less_nat_alt)
    with True 1 show ?thesis by (subst read_loop.simps) simp
  next
    case False
    then show ?thesis by (subst read_loop.simps) (simp add: word_less_nat_alt)
  qed
qed

lemma write_loop_foldl:
  "write_loop c data len i rs =
     foldl (\<lambda>rs k. write_byte c (data k) rs) rs [unat i..<unat len]"
proof (induction c data len i rs rule: write_loop.induct)
  case (1 c data len i rs)
  show ?case
  proof (cases "i < len")
    case True
    then have "[unat i..<unat len] = unat i # [unat (i + 1)..<unat len]"
      by (simp add: unat_succ_less upt_conv_Cons word_less_nat_alt)
    with True 1 show ?thesis by (subst write_loop.simps) simp
  next
    case False
    then show ?thesis by (subst write_loop.simps) (simp add: word_less_nat_alt)
  qed
qed

lemma write_loop_bytes:
  "write_loop c data len i rs = write_bytes c (map data [unat i..<unat len]) rs"
  by (simp add: write_loop_foldl write_bytes_def foldl_map)

subsection \<open>The bit packing of the descriptor\<close>

lemma nat_and_240:
  fixes n :: nat
  assumes "n < 256"
  shows "n AND 240 = 16 * (n div 16)"
proof -
  have a: "(240::nat) = push_bit 4 (mask 4)"
    by (simp add: mask_eq_exp_minus_1 push_bit_eq_mult)
  have n: "take_bit 8 n = n"
    using assms by (simp add: take_bit_nat_eq_self)
  have "n AND push_bit 4 (mask 4) = push_bit 4 (drop_bit 4 n)"
  proof (rule bit_eqI)
    fix k
    have "bit (take_bit 8 n) k \<Longrightarrow> k < 8"
      by (simp add: bit_take_bit_iff)
    then have "bit n k \<Longrightarrow> k < 8"
      by (simp add: n)
    then show "bit (n AND push_bit 4 (mask 4)) k = bit (push_bit 4 (drop_bit 4 n)) k"
      by (auto simp add: bit_and_iff bit_push_bit_iff bit_mask_iff bit_drop_bit_eq)
  qed
  then show ?thesis
    by (simp add: a push_bit_eq_mult drop_bit_eq_div)
qed

lemma unat_ucast_u8_u16: "unat (ucast (d::u8) :: u16) = unat d"
  using unsigned_less [of d, where 'a = nat]
  by (simp add: unsigned_ucast_eq take_bit_nat_eq_self)

lemma pagesize_unat:
  "unat (ucast (d4::u8) + push_bit 4 (ucast (d5::u8) AND 0xF0) :: u16)
     = unat d4 + 256 * (unat d5 div 16)"
proof -
  have d5: "unat d5 < 256" and d4: "unat d4 < 256"
    using unsigned_less [of d5, where 'a = nat] unsigned_less [of d4, where 'a = nat]
    by simp_all
  have "unat (ucast d5 AND 0xF0 :: u16) = unat d5 AND 240"
    by (simp add: unsigned_and_eq unat_ucast_u8_u16)
  also have "\<dots> = 16 * (unat d5 div 16)"
    using nat_and_240 [OF d5] by simp
  finally have hi: "unat (ucast d5 AND 0xF0 :: u16) = 16 * (unat d5 div 16)" .
  have "unat d5 div 16 < 16"
    using d5 by simp
  then have "unat (push_bit 4 (ucast d5 AND 0xF0 :: u16)) = 256 * (unat d5 div 16)"
    by (simp add: push_bit_eq_mult unat_word_ariths hi)
  moreover have "unat (ucast d4 :: u16) = unat d4"
    by (rule unat_ucast_u8_u16)
  ultimately show ?thesis
    using d4 d5 by (simp add: unat_word_ariths)
qed

lemma flags_unat: "unat ((d5::u8) AND 0x0F) = unat d5 mod 16"
proof -
  have "(0x0F::u8) = mask 4"
    by (simp add: mask_eq_exp_minus_1)
  then have "d5 AND 0x0F = take_bit 4 d5"
    by (simp only: take_bit_eq_mask)
  then show ?thesis
    by (simp only: unsigned_take_bit_eq) (simp add: take_bit_eq_mod)
qed

subsection \<open>The dispatcher, branch by branch\<close>

lemma setup_WRITEFLASH:
  assumes "distinct (opcodes c)" and "data 1 = USBASP_FUNC_WRITEFLASH c"
  shows "usbFunctionSetup c tg data s =
    (0xff, (set_inline_address data s)
       \<lparr>prog_nbytes := inline_nbytes data,
        prog_pagesize := ucast (data 4) + push_bit 4 (ucast (data 5) AND 0xF0),
        prog_blockflags := data 5 AND 0x0F,
        prog_pagecounter :=
          (if (data 5 AND 0x0F) AND PROG_BLOCKFLAG_FIRST c \<noteq> 0
           then ucast (ucast (data 4) + push_bit 4 (ucast (data 5) AND 0xF0) :: u16)
           else prog_pagecounter s),
        prog_state := PROG_STATE_WRITEFLASH,
        usbMsgPtr := ReplyBuffer\<rparr>)"
proof -
  from assms have ne: "data 1 \<noteq> USBASP_FUNC_CONNECT c" "data 1 \<noteq> USBASP_FUNC_DISCONNECT c"
    "data 1 \<noteq> USBASP_FUNC_TRANSMIT c" "data 1 \<noteq> USBASP_FUNC_READFLASH c"
    "data 1 \<noteq> USBASP_FUNC_READEEPROM c" "data 1 \<noteq> USBASP_FUNC_ENABLEPROG c"
    by (auto simp add: opcodes_def)
  have eq: "(data 1 = USBASP_FUNC_WRITEFLASH c) = True"
    using assms(2) by simp
  show ?thesis
    unfolding usbFunctionSetup_def
    apply (simp only: ne eq if_False if_True)
    apply (simp add: Let_def set_inline_address_def)
    done
qed

lemma setup_SETLONGADDRESS:
  assumes "distinct (opcodes c)" and "data 1 = USBASP_FUNC_SETLONGADDRESS c"
  shows "usbFunctionSetup c tg data s =
    (0, s\<lparr>prog_address_newmode := 1, prog_address := long_address data,
          usbMsgPtr := ReplyBuffer\<rparr>)"
proof -
  from assms have ne: "data 1 \<noteq> USBASP_FUNC_CONNECT c" "data 1 \<noteq> USBASP_FUNC_DISCONNECT c"
    "data 1 \<noteq> USBASP_FUNC_TRANSMIT c" "data 1 \<noteq> USBASP_FUNC_READFLASH c"
    "data 1 \<noteq> USBASP_FUNC_READEEPROM c" "data 1 \<noteq> USBASP_FUNC_ENABLEPROG c"
    "data 1 \<noteq> USBASP_FUNC_WRITEFLASH c" "data 1 \<noteq> USBASP_FUNC_WRITEEEPROM c"
    by (auto simp add: opcodes_def)
  have eq: "(data 1 = USBASP_FUNC_SETLONGADDRESS c) = True"
    using assms(2) by simp
  show ?thesis
    unfolding usbFunctionSetup_def
    apply (simp only: ne eq if_False if_True)
    apply (simp add: Let_def)
    done
qed

text \<open>
  In the new address mode no command but SetLongAddress touches \<^verbatim>\<open>prog_address\<close>: every
  branch that carries an inline address tests \<^verbatim>\<open>prog_address_newmode\<close> first.
\<close>

lemma setup_keeps_long_address:
  assumes "prog_address_newmode s \<noteq> 0" and "data 1 \<noteq> USBASP_FUNC_SETLONGADDRESS c"
  shows "prog_address (snd (usbFunctionSetup c tg data s)) = prog_address s"
proof -
  have eq: "(data 1 = USBASP_FUNC_SETLONGADDRESS c) = False"
    using assms(2) by simp
  show ?thesis
    unfolding usbFunctionSetup_def
    apply (simp only: eq if_False)
    apply (simp add: Let_def set_inline_address_def call_def assms(1))
    done
qed

lemma setup_keeps_newmode:
  assumes "data 1 \<noteq> USBASP_FUNC_CONNECT c" and "data 1 \<noteq> USBASP_FUNC_SETLONGADDRESS c"
  shows "prog_address_newmode (snd (usbFunctionSetup c tg data s)) = prog_address_newmode s"
proof -
  have eq: "(data 1 = USBASP_FUNC_CONNECT c) = False"
    "(data 1 = USBASP_FUNC_SETLONGADDRESS c) = False"
    using assms by simp_all
  show ?thesis
    unfolding usbFunctionSetup_def
    apply (simp only: eq if_False)
    apply (simp add: Let_def set_inline_address_def call_def)
    done
qed

lemma setup_unrecognized:
  assumes "data 1 \<notin> set (opcodes c)"
  shows "usbFunctionSetup c tg data s = (0, s\<lparr>usbMsgPtr := ReplyBuffer\<rparr>)"
proof -
  from assms have ne: "data 1 \<noteq> USBASP_FUNC_CONNECT c" "data 1 \<noteq> USBASP_FUNC_DISCONNECT c"
    "data 1 \<noteq> USBASP_FUNC_TRANSMIT c" "data 1 \<noteq> USBASP_FUNC_READFLASH c"
    "data 1 \<noteq> USBASP_FUNC_READEEPROM c" "data 1 \<noteq> USBASP_FUNC_ENABLEPROG c"
    "data 1 \<noteq> USBASP_FUNC_WRITEFLASH c" "data 1 \<noteq> USBASP_FUNC_WRITEEEPROM c"
    "data 1 \<noteq> USBASP_FUNC_SETLONGADDRESS c" "data 1 \<noteq> USBASP_FUNC_SETISPSCK c"
    by (simp_all add: opcodes_def)
  show ?thesis
    unfolding usbFunctionSetup_def
    apply (simp only: ne if_False)
    apply simp
    done
qed

lemma distinct_sample_opcodes: "distinct (opcodes sample_h)"
  by (simp add: opcodes_def sample_h_def)

subsection \<open>The read engine\<close>

lemma read_byte_eq:
  "read_byte tg i (data, s) =
     (data(i := target_byte tg (prog_state s) (prog_address s)),
      s\<lparr>prog_address := prog_address s + 1,
        calls := calls s @ [read_call (prog_state s) (prog_address s)]\<rparr>)"
  by (simp add: read_byte_def target_byte_def read_call_def call_def)

lemma read_fold:
  "foldl (\<lambda>ds k. read_byte tg k ds) (data, s) [i..<i + n] =
     ((\<lambda>k. if i \<le> k \<and> k < i + n
            then target_byte tg (prog_state s) (prog_address s + of_nat (k - i)) else data k),
      s\<lparr>prog_address := prog_address s + of_nat n,
        calls := calls s @ map (\<lambda>k. read_call (prog_state s) (prog_address s + of_nat k)) [0..<n]\<rparr>)"
proof (induction n)
  case 0
  then show ?case by (auto simp add: fun_eq_iff)
next
  case (Suc n)
  have "[i..<i + Suc n] = [i..<i + n] @ [i + n]"
    by simp
  then show ?case
    by (simp only: foldl_append Suc.IH) (auto simp add: read_byte_eq fun_eq_iff)
qed

lemma usbFunctionRead_ok:
  assumes "prog_state s = PROG_STATE_READFLASH \<or> prog_state s = PROG_STATE_READEEPROM"
  shows "usbFunctionRead tg data len s =
    (len,
     (\<lambda>k. if k < unat len then target_byte tg (prog_state s) (prog_address s + of_nat k)
          else data k),
     s\<lparr>prog_address := prog_address s + of_nat (unat len),
       prog_state := (if len < 8 then PROG_STATE_IDLE else prog_state s),
       calls := calls s
          @ map (\<lambda>k. read_call (prog_state s) (prog_address s + of_nat k)) [0..<unat len]\<rparr>)"
proof -
  have "read_loop tg len 0 (data, s) =
      foldl (\<lambda>ds k. read_byte tg k ds) (data, s) [0..<0 + unat len]"
    by (simp add: read_loop_foldl)
  then show ?thesis
    using assms unfolding usbFunctionRead_def read_fold
    by auto
qed

lemma target_bytes_add:
  "target_bytes tg m a (n1 + n2) = target_bytes tg m a n1 @ target_bytes tg m (a + of_nat n1) n2"
proof -
  have "[0..<n1 + n2] = [0..<n1] @ [n1..<n2 + n1]"
    using upt_add_eq_append [of 0 n1 n2] by (simp add: add.commute)
  then have "[0..<n1 + n2] = [0..<n1] @ map (\<lambda>k. k + n1) [0..<n2]"
    by (simp only: map_add_upt)
  then show ?thesis
    by (simp add: target_bytes_def comp_def ac_simps)
qed

lemma read_calls_add:
  "map (\<lambda>k. read_call m (a + of_nat k)) [0..<n1 + n2] =
     map (\<lambda>k. read_call m (a + of_nat k)) [0..<n1]
       @ map (\<lambda>k. read_call m (a + of_nat n1 + of_nat k)) [0..<n2]"
proof -
  have "[0..<n1 + n2] = [0..<n1] @ [n1..<n2 + n1]"
    using upt_add_eq_append [of 0 n1 n2] by (simp add: add.commute)
  then have "[0..<n1 + n2] = [0..<n1] @ map (\<lambda>k. k + n1) [0..<n2]"
    by (simp only: map_add_upt)
  then show ?thesis
    by (simp add: comp_def ac_simps)
qed

lemma read_chunks_append:
  "read_chunks tg (xs @ ys) s =
     (let (o1, s1) = read_chunks tg xs s; (o2, s2) = read_chunks tg ys s1 in (o1 @ o2, s2))"
  by (induction xs arbitrary: s) (simp_all add: Let_def split: prod.splits)

lemma read_chunks_full:
  assumes "prog_state s = PROG_STATE_READFLASH \<or> prog_state s = PROG_STATE_READEEPROM"
    and "\<forall>l\<in>set lens. \<not> l < 8"
  shows "map fst (fst (read_chunks tg lens s)) = lens
     \<and> concat (map snd (fst (read_chunks tg lens s)))
         = target_bytes tg (prog_state s) (prog_address s) (sum_list (map unat lens))
     \<and> snd (read_chunks tg lens s) =
         s\<lparr>prog_address := prog_address s + of_nat (sum_list (map unat lens)),
           calls := calls s @ map (\<lambda>k. read_call (prog_state s) (prog_address s + of_nat k))
                                [0..<sum_list (map unat lens)]\<rparr>"
  using assms
proof (induction lens arbitrary: s)
  case Nil
  then show ?case by (simp add: target_bytes_def)
next
  case (Cons len lens)
  let ?s1 = "s\<lparr>prog_address := prog_address s + of_nat (unat len),
       calls := calls s
          @ map (\<lambda>k. read_call (prog_state s) (prog_address s + of_nat k)) [0..<unat len]\<rparr>"
  have call1: "usbFunctionRead tg (\<lambda>_. 0) len s =
     (len, (\<lambda>k. if k < unat len then target_byte tg (prog_state s) (prog_address s + of_nat k) else 0), ?s1)"
    using Cons.prems by (simp add: usbFunctionRead_ok)
  have out1: "map (\<lambda>k. if k < unat len then target_byte tg (prog_state s) (prog_address s + of_nat k) else 0) [0..<unat len]
      = target_bytes tg (prog_state s) (prog_address s) (unat len)"
    by (simp add: target_bytes_def)
  have m1: "prog_state ?s1 = PROG_STATE_READFLASH \<or> prog_state ?s1 = PROG_STATE_READEEPROM"
    using Cons.prems by simp
  have l1: "\<forall>l\<in>set lens. \<not> l < 8"
    using Cons.prems by simp
  note ih = Cons.IH [OF m1 l1]
  show ?case
    using ih
    by (simp add: call1 out1 Let_def split_beta target_bytes_add read_calls_add)
qed

lemma unat_short_chunk: "unat (of_nat (N mod 8) :: u8) = N mod 8"
proof -
  have "N mod 8 < 2 ^ LENGTH(8)"
    by (rule less_trans [of _ 8]) simp_all
  then show ?thesis
    by (simp only: unat_of_nat mod_less)
qed

lemma short_chunk_less: "(of_nat (N mod 8) :: u8) < 8"
  by (simp add: word_less_nat_alt unat_short_chunk)

lemma read_session:
  assumes "prog_state s = PROG_STATE_READFLASH \<or> prog_state s = PROG_STATE_READEEPROM"
  shows "map fst (fst (read_chunks tg (read_chunking N) s)) = read_chunking N
     \<and> concat (map snd (fst (read_chunks tg (read_chunking N) s)))
         = target_bytes tg (prog_state s) (prog_address s) N
     \<and> snd (read_chunks tg (read_chunking N) s) =
         s\<lparr>prog_address := prog_address s + of_nat N,
           prog_state := PROG_STATE_IDLE,
           calls := calls s @ map (\<lambda>k. read_call (prog_state s) (prog_address s + of_nat k))
                                [0..<N]\<rparr>"
proof -
  let ?j = "N div 8" and ?r = "of_nat (N mod 8) :: u8"
  let ?full = "replicate ?j (8::u8)"
  let ?s1 = "s\<lparr>prog_address := prog_address s + of_nat (8 * ?j),
           calls := calls s @ map (\<lambda>k. read_call (prog_state s) (prog_address s + of_nat k))
                                [0..<8 * ?j]\<rparr>"
  have N: "N = 8 * ?j + N mod 8"
    by simp
  have full: "map fst (fst (read_chunks tg ?full s)) = ?full"
    "concat (map snd (fst (read_chunks tg ?full s)))
         = target_bytes tg (prog_state s) (prog_address s) (8 * ?j)"
    "snd (read_chunks tg ?full s) = ?s1"
    using read_chunks_full [of s ?full tg] assms
    by (simp_all add: sum_list_replicate mult.commute)
  have m1: "prog_state ?s1 = PROG_STATE_READFLASH \<or> prog_state ?s1 = PROG_STATE_READEEPROM"
    using assms by simp
  have last: "read_chunks tg [?r] ?s1 =
     ([(?r, target_bytes tg (prog_state s) (prog_address s + of_nat (8 * ?j)) (N mod 8))],
      ?s1\<lparr>prog_address := prog_address ?s1 + of_nat (N mod 8),
       prog_state := PROG_STATE_IDLE,
       calls := calls ?s1
          @ map (\<lambda>k. read_call (prog_state s) (prog_address s + of_nat (8 * ?j) + of_nat k)) [0..<N mod 8]\<rparr>)"
    using assms
    by (simp add: usbFunctionRead_ok short_chunk_less unat_short_chunk target_bytes_def)
  have split: "read_chunks tg (read_chunking N) s =
      (fst (read_chunks tg ?full s) @ fst (read_chunks tg [?r] (snd (read_chunks tg ?full s))),
       snd (read_chunks tg [?r] (snd (read_chunks tg ?full s))))"
    by (simp only: read_chunking_def read_chunks_append Let_def split_beta)
  have tb: "target_bytes tg (prog_state s) (prog_address s) N =
      target_bytes tg (prog_state s) (prog_address s) (8 * ?j)
        @ target_bytes tg (prog_state s) (prog_address s + of_nat (8 * ?j)) (N mod 8)"
    using target_bytes_add [of tg "prog_state s" "prog_address s" "8 * ?j" "N mod 8"]
    by (simp only: N [symmetric])
  have rc: "map (\<lambda>k. read_call (prog_state s) (prog_address s + of_nat k)) [0..<N] =
     map (\<lambda>k. read_call (prog_state s) (prog_address s + of_nat k)) [0..<8 * ?j]
       @ map (\<lambda>k. read_call (prog_state s) (prog_address s + of_nat (8 * ?j) + of_nat k)) [0..<N mod 8]"
    using read_calls_add [of "prog_state s" "prog_address s" "8 * ?j" "N mod 8"]
    by (simp only: N [symmetric])
  have ad: "prog_address s + of_nat N = prog_address s + of_nat (8 * ?j) + of_nat (N mod 8)"
    by (subst N) (simp only: of_nat_add add.assoc)
  show ?thesis
    unfolding split full(3) last tb rc ad
    by (simp add: read_chunking_def full(1,2))
qed

subsection \<open>The write engine\<close>

lemma write_byte_nbytes:
  "prog_nbytes (snd (write_byte c d rs)) = prog_nbytes (snd rs) - 1"
  by (cases rs) (simp add: write_byte_def Let_def call_def)

lemma write_byte_address:
  "prog_address (snd (write_byte c d rs)) = prog_address (snd rs) + 1"
  by (cases rs) (simp add: write_byte_def Let_def call_def)

lemma write_byte_state:
  "prog_state (snd (write_byte c d rs)) =
     (if prog_nbytes (snd rs) = 1 then PROG_STATE_IDLE else prog_state (snd rs))"
  by (cases rs) (simp add: write_byte_def Let_def call_def)

lemma write_byte_retVal:
  "fst (write_byte c d rs) = (if prog_nbytes (snd rs) = 1 then 1 else fst rs)"
  by (cases rs) (simp add: write_byte_def Let_def call_def)

lemma write_byte_geometry:
  "prog_pagesize (snd (write_byte c d rs)) = prog_pagesize (snd rs)
   \<and> prog_blockflags (snd (write_byte c d rs)) = prog_blockflags (snd rs)"
  by (cases rs) (simp add: write_byte_def Let_def call_def)

lemma write_byte_not_flash:
  assumes "prog_state (snd rs) \<noteq> PROG_STATE_WRITEFLASH" and "prog_nbytes (snd rs) \<noteq> 1"
  shows "calls (snd (write_byte c d rs)) =
           calls (snd rs) @ [IspWriteEEPROM (prog_address (snd rs)) d]"
    and "prog_pagecounter (snd (write_byte c d rs)) = prog_pagecounter (snd rs)"
  using assms by (cases rs; simp add: write_byte_def Let_def call_def)+

lemma write_byte_first_call:
  "take (Suc (length (calls (snd rs)))) (calls (snd (write_byte c d rs))) =
     calls (snd rs)
       @ [if prog_state (snd rs) = PROG_STATE_WRITEFLASH
          then IspWriteFlash (prog_address (snd rs)) d (if prog_pagesize (snd rs) = 0 then 1 else 0)
          else IspWriteEEPROM (prog_address (snd rs)) d]"
  by (cases rs) (auto simp add: write_byte_def Let_def call_def)

lemma write_bytes_snoc: "write_bytes c (bs @ [d]) rs = write_byte c d (write_bytes c bs rs)"
  by (simp add: write_bytes_def)

lemma write_bytes_append:
  "write_bytes c (xs @ ys) rs = write_bytes c ys (write_bytes c xs rs)"
  by (simp add: write_bytes_def)

lemma write_bytes_nbytes:
  "prog_nbytes (snd (write_bytes c bs rs)) = prog_nbytes (snd rs) - of_nat (length bs)"
  by (induction bs rule: rev_induct) (simp_all add: write_bytes_snoc write_byte_nbytes write_bytes_def)

lemma write_bytes_address:
  "prog_address (snd (write_bytes c bs rs)) = prog_address (snd rs) + of_nat (length bs)"
  by (induction bs rule: rev_induct) (simp_all add: write_bytes_snoc write_byte_address write_bytes_def)

lemma write_bytes_geometry:
  "prog_pagesize (snd (write_bytes c bs rs)) = prog_pagesize (snd rs)
   \<and> prog_blockflags (snd (write_bytes c bs rs)) = prog_blockflags (snd rs)"
  by (induction bs rule: rev_induct) (simp_all add: write_bytes_snoc write_byte_geometry write_bytes_def)

lemma nbytes_hits_one:
  fixes x :: u16
  assumes "k < 65535"
  shows "x - of_nat k = 1 \<longleftrightarrow> unat x = Suc k"
proof -
  have "x - of_nat k = 1 \<longleftrightarrow> x = of_nat (Suc k)"
    by (auto simp add: algebra_simps)
  also have "\<dots> \<longleftrightarrow> unat x = unat (of_nat (Suc k) :: u16)"
    by (simp only: word_unat_eq_iff)
  also have "unat (of_nat (Suc k) :: u16) = Suc k"
    using assms by (simp only: unat_of_nat) simp
  finally show ?thesis .
qed

lemma write_bytes_completion:
  assumes "length bs < 65536"
  shows "prog_state (snd (write_bytes c bs rs)) =
           (if 0 < unat (prog_nbytes (snd rs)) \<and> unat (prog_nbytes (snd rs)) \<le> length bs
            then PROG_STATE_IDLE else prog_state (snd rs))
       \<and> fst (write_bytes c bs rs) =
           (if 0 < unat (prog_nbytes (snd rs)) \<and> unat (prog_nbytes (snd rs)) \<le> length bs
            then 1 else fst rs)"
  using assms
proof (induction bs rule: rev_induct)
  case Nil
  then show ?case by (auto simp add: write_bytes_def)
next
  case (snoc d bs)
  then have k: "length bs < 65535"
    by simp
  have one: "prog_nbytes (snd (write_bytes c bs rs)) = 1
      \<longleftrightarrow> unat (prog_nbytes (snd rs)) = Suc (length bs)"
    by (simp only: write_bytes_nbytes nbytes_hits_one [OF k])
  from snoc k show ?case
    by (auto simp add: write_bytes_snoc write_byte_state write_byte_retVal one)
qed

lemma unat_of_nat_prefix:
  assumes "k \<le> unat (len::u8)"
  shows "unat (of_nat k :: u8) = k"
proof -
  have "unat len < 2 ^ LENGTH(8)"
    by (rule unsigned_less)
  with assms have "k < 2 ^ LENGTH(8)"
    by (rule le_less_trans)
  then show ?thesis
    by (simp only: unat_of_nat mod_less)
qed

lemma unat_u8_less: "unat (len::u8) < 256"
  using unsigned_less [of len, where 'a = nat] by simp

lemma usbFunctionWrite_ok:
  assumes "prog_state s = PROG_STATE_WRITEFLASH \<or> prog_state s = PROG_STATE_WRITEEEPROM"
  shows "usbFunctionWrite c data len s = write_bytes c (map data [0..<unat len]) (0, s)"
  using assms by (auto simp add: usbFunctionWrite_def write_loop_bytes)

lemma usbFunctionWrite_prefix:
  assumes "prog_state s = PROG_STATE_WRITEFLASH \<or> prog_state s = PROG_STATE_WRITEEEPROM"
    and "k \<le> unat (len::u8)"
  shows "usbFunctionWrite c data (of_nat k) s = write_bytes c (map data [0..<k]) (0, s)"
  using assms by (simp add: usbFunctionWrite_ok unat_of_nat_prefix)

lemma usbFunctionWrite_resume:
  assumes "prog_state s = PROG_STATE_WRITEFLASH \<or> prog_state s = PROG_STATE_WRITEEEPROM"
    and "k \<le> unat len"
  shows "usbFunctionWrite c data len s =
           write_loop c data len (of_nat k) (usbFunctionWrite c data (of_nat k) s)"
proof -
  have "[0..<unat len] = [0..<k] @ [k..<unat len]"
    using assms(2) upt_add_eq_append [of 0 k "unat len - k"] by simp
  then have "map data [0..<unat len] = map data [0..<k] @ map data [k..<unat len]"
    by simp
  then show ?thesis
    using assms
    by (simp only: usbFunctionWrite_ok usbFunctionWrite_prefix write_loop_bytes
          write_bytes_append unat_of_nat_prefix)
qed

lemma usbFunctionWrite_next:
  assumes "prog_state s = PROG_STATE_WRITEFLASH \<or> prog_state s = PROG_STATE_WRITEEEPROM"
    and "k < unat (len::u8)"
  shows "usbFunctionWrite c data (of_nat (Suc k)) s =
           write_byte c (data k) (usbFunctionWrite c data (of_nat k) s)"
proof -
  have "usbFunctionWrite c data (of_nat (Suc k)) s = write_bytes c (map data [0..<Suc k]) (0, s)"
    using assms by (intro usbFunctionWrite_prefix [where len = len]) simp_all
  moreover have "usbFunctionWrite c data (of_nat k) s = write_bytes c (map data [0..<k]) (0, s)"
    using assms by (intro usbFunctionWrite_prefix [where len = len]) simp_all
  ultimately show ?thesis
    by (simp add: write_bytes_snoc)
qed

lemma reach_zero_iff:
  fixes x :: u16
  assumes "k < 65536"
  shows "(\<exists>j. 0 < j \<and> j \<le> k \<and> x - of_nat j = 0) \<longleftrightarrow> 0 < unat x \<and> unat x \<le> k"
proof
  assume "\<exists>j. 0 < j \<and> j \<le> k \<and> x - of_nat j = 0"
  then obtain j where j: "0 < j" "j \<le> k" "x = of_nat j"
    by auto
  from j(2) assms have "unat (of_nat j :: u16) = j"
    by (simp only: unat_of_nat) simp
  with j show "0 < unat x \<and> unat x \<le> k"
    by simp
next
  assume "0 < unat x \<and> unat x \<le> k"
  moreover have "x - of_nat (unat x) = 0"
    by simp
  ultimately show "\<exists>j. 0 < j \<and> j \<le> k \<and> x - of_nat j = 0"
    by blast
qed

lemma write_prefix_facts:
  assumes "prog_state s = PROG_STATE_WRITEFLASH \<or> prog_state s = PROG_STATE_WRITEEEPROM"
    and "k \<le> unat (len::u8)"
  shows "prog_nbytes (snd (usbFunctionWrite c data (of_nat k) s)) = prog_nbytes s - of_nat k"
    and "prog_address (snd (usbFunctionWrite c data (of_nat k) s)) = prog_address s + of_nat k"
    and "prog_state (snd (usbFunctionWrite c data (of_nat k) s)) =
           (if 0 < unat (prog_nbytes s) \<and> unat (prog_nbytes s) \<le> k
            then PROG_STATE_IDLE else prog_state s)"
    and "fst (usbFunctionWrite c data (of_nat k) s) =
           (if 0 < unat (prog_nbytes s) \<and> unat (prog_nbytes s) \<le> k then 1 else 0)"
proof -
  have k: "length (map data [0..<k]) < 65536"
    using assms(2) unat_u8_less [of len] by simp
  note p = usbFunctionWrite_prefix [OF assms, of c data]
  show "prog_nbytes (snd (usbFunctionWrite c data (of_nat k) s)) = prog_nbytes s - of_nat k"
    by (simp add: p write_bytes_nbytes)
  show "prog_address (snd (usbFunctionWrite c data (of_nat k) s)) = prog_address s + of_nat k"
    by (simp add: p write_bytes_address)
  show "prog_state (snd (usbFunctionWrite c data (of_nat k) s)) =
           (if 0 < unat (prog_nbytes s) \<and> unat (prog_nbytes s) \<le> k
            then PROG_STATE_IDLE else prog_state s)"
    using write_bytes_completion [OF k, of c "(0, s)"] by (simp add: p)
  show "fst (usbFunctionWrite c data (of_nat k) s) =
           (if 0 < unat (prog_nbytes s) \<and> unat (prog_nbytes s) \<le> k then 1 else 0)"
    using write_bytes_completion [OF k, of c "(0, s)"] by (simp add: p)
qed

lemma write_prefix_pagesize:
  assumes "prog_state s = PROG_STATE_WRITEFLASH \<or> prog_state s = PROG_STATE_WRITEEEPROM"
    and "k \<le> unat (len::u8)"
  shows "prog_pagesize (snd (usbFunctionWrite c data (of_nat k) s)) = prog_pagesize s"
  by (simp add: usbFunctionWrite_prefix [OF assms] write_bytes_geometry)

subsection \<open>Paged flash writes\<close>

text \<open>One byte in paged flash mode that neither fills the page nor ends the session.\<close>

lemma write_byte_buffered:
  assumes "prog_state s = PROG_STATE_WRITEFLASH" and "prog_pagesize s \<noteq> 0"
    and "prog_pagecounter s \<noteq> 1" and "prog_nbytes s \<noteq> 1"
  shows "write_byte c d (r, s) =
    (r, s\<lparr>prog_address := prog_address s + 1,
          prog_nbytes := prog_nbytes s - 1,
          prog_pagecounter := prog_pagecounter s - 1,
          calls := calls s @ [IspWriteFlash (prog_address s) d 0]\<rparr>)"
  using assms by (simp add: write_byte_def Let_def call_def)

text \<open>The byte that fills the page.\<close>

lemma write_byte_page_full:
  assumes "prog_state s = PROG_STATE_WRITEFLASH" and "prog_pagesize s \<noteq> 0"
    and "prog_pagecounter s = 1"
  shows "write_byte c d (r, s) =
    ((if prog_nbytes s = 1 then 1 else r),
     s\<lparr>prog_address := prog_address s + 1,
       prog_nbytes := prog_nbytes s - 1,
       prog_pagecounter := ucast (prog_pagesize s),
       prog_state := (if prog_nbytes s = 1 then PROG_STATE_IDLE else PROG_STATE_WRITEFLASH),
       calls := calls s @ [IspWriteFlash (prog_address s) d 0, IspFlushPage (prog_address s) d]
         @ (if prog_nbytes s = 1 \<and> prog_blockflags s AND PROG_BLOCKFLAG_LAST c \<noteq> 0
               \<and> ucast (ucast (prog_pagesize s) :: u8) \<noteq> prog_pagesize s
            then [IspFlushPage (prog_address s) d] else [])\<rparr>)"
  using assms by (simp add: write_byte_def Let_def call_def)

text \<open>The last byte of the session, in a page that it does not fill.\<close>

lemma write_byte_last:
  assumes "prog_state s = PROG_STATE_WRITEFLASH" and "prog_pagesize s \<noteq> 0"
    and "prog_pagecounter s \<noteq> 1" and "prog_nbytes s = 1"
  shows "write_byte c d (r, s) =
    (1, s\<lparr>prog_address := prog_address s + 1,
          prog_nbytes := 0,
          prog_pagecounter := prog_pagecounter s - 1,
          prog_state := PROG_STATE_IDLE,
          calls := calls s @ [IspWriteFlash (prog_address s) d 0]
            @ (if prog_blockflags s AND PROG_BLOCKFLAG_LAST c \<noteq> 0
                  \<and> ucast (prog_pagecounter s - 1) \<noteq> prog_pagesize s
               then [IspFlushPage (prog_address s) d] else [])\<rparr>)"
  using assms by (simp add: write_byte_def Let_def call_def)

lemma unat_sub_of_nat:
  fixes x :: "'a::len word"
  assumes "k \<le> unat x"
  shows "unat (x - of_nat k) = unat x - k"
proof -
  have "unat x < 2 ^ LENGTH('a)"
    by (rule unsigned_less)
  with assms have "k < 2 ^ LENGTH('a)"
    by (rule le_less_trans)
  then have k: "unat (of_nat k :: 'a word) = k"
    by (simp only: unat_of_nat mod_less)
  with assms have "(of_nat k :: 'a word) \<le> x"
    by (simp add: word_le_nat_alt)
  then show ?thesis
    by (simp add: unat_sub k)
qed

lemma sub_of_nat_ne_one:
  fixes x :: "'a::len word"
  assumes "Suc k < unat x"
  shows "x - of_nat k \<noteq> 1"
proof
  assume "x - of_nat k = 1"
  then have "unat (x - of_nat k) = 1"
    by simp
  moreover have "unat (x - of_nat k) = unat x - k"
    using assms by (intro unat_sub_of_nat) simp
  ultimately show False
    using assms by simp
qed

lemma sub_of_nat_eq_one:
  fixes x :: "'a::len word"
  assumes "unat x = Suc k"
  shows "x - of_nat k = 1"
proof -
  have "unat (x - of_nat k) = unat x - k"
    using assms by (intro unat_sub_of_nat) simp
  with assms have "unat (x - of_nat k) = unat (1 :: 'a word)"
    by simp
  then show ?thesis
    by (simp only: word_unat_eq_iff)
qed

lemma buffered_calls_snoc:
  "buffered_calls a (bs @ [d]) =
     buffered_calls a bs @ [IspWriteFlash (a + of_nat (length bs)) d 0]"
  by (simp add: buffered_calls_def enumerate_append_eq)

lemma write_bytes_buffered:
  assumes "prog_state s = PROG_STATE_WRITEFLASH" and "prog_pagesize s \<noteq> 0"
    and "length bs < unat (prog_pagecounter s)" and "length bs < unat (prog_nbytes s)"
  shows "write_bytes c bs (r, s) =
    (r, s\<lparr>prog_address := prog_address s + of_nat (length bs),
          prog_nbytes := prog_nbytes s - of_nat (length bs),
          prog_pagecounter := prog_pagecounter s - of_nat (length bs),
          calls := calls s @ buffered_calls (prog_address s) bs\<rparr>)"
  using assms(3,4)
proof (induction bs rule: rev_induct)
  case Nil
  then show ?case by (simp add: write_bytes_def buffered_calls_def)
next
  case (snoc d bs)
  let ?k = "length bs"
  let ?s = "s\<lparr>prog_address := prog_address s + of_nat ?k,
          prog_nbytes := prog_nbytes s - of_nat ?k,
          prog_pagecounter := prog_pagecounter s - of_nat ?k,
          calls := calls s @ buffered_calls (prog_address s) bs\<rparr>"
  from snoc.prems have k: "Suc ?k < unat (prog_pagecounter s)" "Suc ?k < unat (prog_nbytes s)"
    by simp_all
  then have ih: "write_bytes c bs (r, s) = (r, ?s)"
    by (intro snoc.IH) simp_all
  have st: "prog_state ?s = PROG_STATE_WRITEFLASH" "prog_pagesize ?s \<noteq> 0"
    using assms(1,2) by simp_all
  have pc: "prog_pagecounter ?s \<noteq> 1"
    using sub_of_nat_ne_one [OF k(1)] by simp
  have nb: "prog_nbytes ?s \<noteq> 1"
    using sub_of_nat_ne_one [OF k(2)] by simp
  show ?case
    by (simp only: write_bytes_snoc ih write_byte_buffered [OF st pc nb])
       (simp add: buffered_calls_snoc algebra_simps)
qed

lemma write_bytes_page:
  assumes "prog_state s = PROG_STATE_WRITEFLASH" and "prog_pagesize s \<noteq> 0"
    and "bs \<noteq> []" and "length bs = unat (prog_pagecounter s)"
    and "length bs \<le> unat (prog_nbytes s)"
  shows "write_bytes c bs (r, s) =
    ((if unat (prog_nbytes s) = length bs then 1 else r),
     s\<lparr>prog_address := prog_address s + of_nat (length bs),
       prog_nbytes := prog_nbytes s - of_nat (length bs),
       prog_pagecounter := ucast (prog_pagesize s),
       prog_state := (if unat (prog_nbytes s) = length bs
                      then PROG_STATE_IDLE else PROG_STATE_WRITEFLASH),
       calls := calls s @ page_calls (prog_address s) bs
         @ (if unat (prog_nbytes s) = length bs
               \<and> prog_blockflags s AND PROG_BLOCKFLAG_LAST c \<noteq> 0
               \<and> ucast (ucast (prog_pagesize s) :: u8) \<noteq> prog_pagesize s
            then [IspFlushPage (prog_address s + of_nat (length bs - 1)) (last bs)]
            else [])\<rparr>)"
proof -
  from assms(3) obtain bs' d where bs: "bs = bs' @ [d]"
    by (cases bs rule: rev_cases) simp_all
  let ?k = "length bs'"
  let ?s = "s\<lparr>prog_address := prog_address s + of_nat ?k,
          prog_nbytes := prog_nbytes s - of_nat ?k,
          prog_pagecounter := prog_pagecounter s - of_nat ?k,
          calls := calls s @ buffered_calls (prog_address s) bs'\<rparr>"
  have k: "unat (prog_pagecounter s) = Suc ?k" "Suc ?k \<le> unat (prog_nbytes s)"
    using assms(4,5) bs by simp_all
  have pre: "write_bytes c bs' (r, s) = (r, ?s)"
    using k by (intro write_bytes_buffered assms(1,2)) simp_all
  have st: "prog_state ?s = PROG_STATE_WRITEFLASH" "prog_pagesize ?s \<noteq> 0"
    using assms(1,2) by simp_all
  have pc: "prog_pagecounter ?s = 1"
    using sub_of_nat_eq_one [OF k(1)] by simp
  have "?k < 65535"
    using k(1) unat_u8_less [of "prog_pagecounter s"] by simp
  then have nb: "prog_nbytes ?s = 1 \<longleftrightarrow> unat (prog_nbytes s) = length bs"
    using nbytes_hits_one [of ?k "prog_nbytes s"] bs by simp
  show ?thesis
    unfolding bs
    by (simp only: write_bytes_snoc pre write_byte_page_full [OF st pc] nb [unfolded bs])
       (simp add: page_calls_def buffered_calls_snoc algebra_simps)
qed

text \<open>The end of the session inside a page.\<close>

lemma write_bytes_tail:
  assumes "prog_state s = PROG_STATE_WRITEFLASH" and "prog_pagesize s \<noteq> 0"
    and "bs \<noteq> []" and "length bs < unat (prog_pagecounter s)"
    and "length bs = unat (prog_nbytes s)"
  shows "write_bytes c bs (r, s) =
    (1, s\<lparr>prog_address := prog_address s + of_nat (length bs),
       prog_nbytes := 0,
       prog_pagecounter := prog_pagecounter s - of_nat (length bs),
       prog_state := PROG_STATE_IDLE,
       calls := calls s @ buffered_calls (prog_address s) bs
         @ (if prog_blockflags s AND PROG_BLOCKFLAG_LAST c \<noteq> 0
               \<and> ucast (prog_pagecounter s - of_nat (length bs)) \<noteq> prog_pagesize s
            then [IspFlushPage (prog_address s + of_nat (length bs - 1)) (last bs)]
            else [])\<rparr>)"
proof -
  from assms(3) obtain bs' d where bs: "bs = bs' @ [d]"
    by (cases bs rule: rev_cases) simp_all
  let ?k = "length bs'"
  let ?s = "s\<lparr>prog_address := prog_address s + of_nat ?k,
          prog_nbytes := prog_nbytes s - of_nat ?k,
          prog_pagecounter := prog_pagecounter s - of_nat ?k,
          calls := calls s @ buffered_calls (prog_address s) bs'\<rparr>"
  have k: "Suc ?k < unat (prog_pagecounter s)" "unat (prog_nbytes s) = Suc ?k"
    using assms(4,5) bs by simp_all
  have pre: "write_bytes c bs' (r, s) = (r, ?s)"
    using k by (intro write_bytes_buffered assms(1,2)) simp_all
  have st: "prog_state ?s = PROG_STATE_WRITEFLASH" "prog_pagesize ?s \<noteq> 0"
    using assms(1,2) by simp_all
  have pc: "prog_pagecounter ?s \<noteq> 1"
    using sub_of_nat_ne_one [OF k(1)] by simp
  have nb: "prog_nbytes ?s = 1"
    using sub_of_nat_eq_one [OF k(2)] by simp
  show ?thesis
    unfolding bs
    by (simp only: write_bytes_snoc pre write_byte_last [OF st pc nb])
       (simp add: buffered_calls_snoc algebra_simps)
qed

lemma ucast_counter_eq:
  fixes ps :: u16 and pc :: u8
  assumes "unat ps = unat pc"
  shows "ucast ps = pc" and "ucast pc = ps"
proof -
  have "unat (ucast pc :: u16) = unat pc"
    by (rule unat_ucast_u8_u16)
  with assms show b: "ucast pc = ps"
    by (simp only: word_unat_eq_iff)
  have "unat (ucast ps :: u8) = unat ps mod 256"
    by (simp add: unsigned_ucast_eq take_bit_eq_mod)
  with assms have "unat (ucast ps :: u8) = unat pc"
    using unat_u8_less [of pc] by simp
  then show "ucast ps = pc"
    by (simp only: word_unat_eq_iff)
qed

lemma nth_page_calls_take:
  assumes "j < m"
  shows "nth_page_calls P a (take (m * P) bs) j = nth_page_calls P a bs j"
proof -
  from assms have "Suc j \<le> m"
    by simp
  then have "Suc j * P \<le> m * P"
    by (rule mult_le_mono1)
  then have "P \<le> m * P - j * P"
    by simp
  then have "take P (drop (j * P) (take (m * P) bs)) = take P (drop (j * P) bs)"
    by (simp add: drop_take min_def)
  then show ?thesis
    by (simp add: nth_page_calls_def)
qed

lemma write_bytes_whole_page:
  assumes "prog_state s = PROG_STATE_WRITEFLASH"
    and "unat (prog_pagesize s) = P" and "unat (prog_pagecounter s) = P" and "0 < P"
    and "length bs = P" and "P \<le> unat (prog_nbytes s)"
  shows "write_bytes c bs (r, s) =
    ((if unat (prog_nbytes s) = P then 1 else r),
     s\<lparr>prog_address := prog_address s + of_nat P,
       prog_nbytes := prog_nbytes s - of_nat P,
       prog_state := (if unat (prog_nbytes s) = P
                      then PROG_STATE_IDLE else PROG_STATE_WRITEFLASH),
       calls := calls s @ page_calls (prog_address s) bs\<rparr>)"
proof -
  have ps: "prog_pagesize s \<noteq> 0"
    using assms(2,4) by auto
  have ne: "bs \<noteq> []"
    using assms(4,5) by auto
  have reset: "ucast (prog_pagesize s) = prog_pagecounter s"
    "ucast (prog_pagecounter s) = prog_pagesize s"
    using ucast_counter_eq [of "prog_pagesize s" "prog_pagecounter s"] assms(2,3) by simp_all
  have "write_bytes c bs (r, s) =
    ((if unat (prog_nbytes s) = length bs then 1 else r),
     s\<lparr>prog_address := prog_address s + of_nat (length bs),
       prog_nbytes := prog_nbytes s - of_nat (length bs),
       prog_pagecounter := ucast (prog_pagesize s),
       prog_state := (if unat (prog_nbytes s) = length bs
                      then PROG_STATE_IDLE else PROG_STATE_WRITEFLASH),
       calls := calls s @ page_calls (prog_address s) bs
         @ (if unat (prog_nbytes s) = length bs
               \<and> prog_blockflags s AND PROG_BLOCKFLAG_LAST c \<noteq> 0
               \<and> ucast (ucast (prog_pagesize s) :: u8) \<noteq> prog_pagesize s
            then [IspFlushPage (prog_address s + of_nat (length bs - 1)) (last bs)]
            else [])\<rparr>)"
    using assms(1) ps ne assms(3,5,6) by (intro write_bytes_page) simp_all
  then show ?thesis
    by (simp add: reset assms(5))
qed

lemma write_bytes_pages:
  assumes "prog_state s = PROG_STATE_WRITEFLASH"
    and "unat (prog_pagesize s) = P" and "unat (prog_pagecounter s) = P" and "0 < P"
    and "length bs = m * P" and "m * P \<le> unat (prog_nbytes s)"
  shows "write_bytes c bs (r, s) =
    ((if 0 < m \<and> unat (prog_nbytes s) = m * P then 1 else r),
     s\<lparr>prog_address := prog_address s + of_nat (m * P),
       prog_nbytes := prog_nbytes s - of_nat (m * P),
       prog_state := (if 0 < m \<and> unat (prog_nbytes s) = m * P
                      then PROG_STATE_IDLE else PROG_STATE_WRITEFLASH),
       calls := calls s @ concat (map (nth_page_calls P (prog_address s) bs) [0..<m])\<rparr>)"
  using assms(5,6)
proof (induction m arbitrary: bs)
  case 0
  then show ?case
    using assms(1) by (simp add: write_bytes_def)
next
  case (Suc m)
  let ?bs1 = "take (m * P) bs" and ?bs2 = "drop (m * P) bs"
  define s1 where "s1 = s\<lparr>prog_address := prog_address s + of_nat (m * P),
       prog_nbytes := prog_nbytes s - of_nat (m * P),
       prog_state := PROG_STATE_WRITEFLASH,
       calls := calls s @ concat (map (nth_page_calls P (prog_address s) bs) [0..<m])\<rparr>"
  have len1: "length ?bs1 = m * P" and len2: "length ?bs2 = P"
    using Suc.prems(1) by simp_all
  have n: "m * P + P \<le> unat (prog_nbytes s)"
    using Suc.prems(2) by (simp add: add.commute)
  then have n1: "m * P \<le> unat (prog_nbytes s)" "unat (prog_nbytes s) \<noteq> m * P"
    using assms(4) by simp_all
  have pages: "map (nth_page_calls P (prog_address s) ?bs1) [0..<m]
      = map (nth_page_calls P (prog_address s) bs) [0..<m]"
    by (simp add: nth_page_calls_take)
  have first: "write_bytes c ?bs1 (r, s) = (r, s1)"
    using Suc.IH [OF len1 n1(1)] n1(2) by (simp only: pages s1_def) simp
  have rem: "unat (prog_nbytes s1) = unat (prog_nbytes s) - m * P"
    using unat_sub_of_nat [OF n1(1)] by (simp add: s1_def)
  have st: "prog_state s1 = PROG_STATE_WRITEFLASH" "unat (prog_pagesize s1) = P"
    "unat (prog_pagecounter s1) = P"
    using assms(2,3) by (simp_all add: s1_def)
  have nb: "P \<le> unat (prog_nbytes s1)"
    using rem n by simp
  have done_iff: "unat (prog_nbytes s1) = P \<longleftrightarrow> unat (prog_nbytes s) = Suc m * P"
    using rem n by auto
  have page: "page_calls (prog_address s1) ?bs2 = nth_page_calls P (prog_address s) bs m"
    using len2 by (simp add: nth_page_calls_def s1_def)
  have "write_bytes c bs (r, s) = write_bytes c ?bs2 (write_bytes c ?bs1 (r, s))"
    using write_bytes_append [of c ?bs1 ?bs2 "(r, s)"] by simp
  also have "\<dots> = write_bytes c ?bs2 (r, s1)"
    by (simp only: first)
  also note write_bytes_whole_page [OF st assms(4) len2 nb, of c r]
  finally have "write_bytes c bs (r, s) =
    ((if unat (prog_nbytes s) = Suc m * P then 1 else r),
     s1\<lparr>prog_address := prog_address s1 + of_nat P,
       prog_nbytes := prog_nbytes s1 - of_nat P,
       prog_state := (if unat (prog_nbytes s) = Suc m * P
                      then PROG_STATE_IDLE else PROG_STATE_WRITEFLASH),
       calls := calls s1 @ nth_page_calls P (prog_address s) bs m\<rparr>)"
    by (simp only: done_iff page)
  then show ?case
    by (simp add: s1_def algebra_simps)
qed

lemma write_byte_state_only:
  "snd (write_byte c d (r, s)) = snd (write_byte c d (r', s))"
  by (simp add: write_byte_def Let_def split_beta)

lemma write_bytes_state_only:
  "snd (write_bytes c bs (r, s)) = snd (write_bytes c bs (r', s))"
proof (induction bs rule: rev_induct)
  case Nil
  then show ?case by (simp add: write_bytes_def)
next
  case (snoc d bs)
  obtain r1 s1 where a: "write_bytes c bs (r, s) = (r1, s1)"
    by (cases "write_bytes c bs (r, s)")
  obtain r2 s2 where b: "write_bytes c bs (r', s) = (r2, s2)"
    by (cases "write_bytes c bs (r', s)")
  from snoc a b have "s1 = s2"
    by simp
  then show ?case
    using write_byte_state_only [of c d r1 s1 r2]
    by (simp add: write_bytes_snoc a b)
qed

lemma buffer_of_bytes: "map (buffer_of bs) [0..<length bs] = bs"
  by (rule nth_equalityI) (simp_all add: buffer_of_def)

lemma unat_chunk_length:
  assumes "length ch < 256"
  shows "unat (of_nat (length ch) :: u8) = length ch"
  using assms by (simp only: unat_of_nat) simp

lemma write_chunk_bytes:
  assumes "prog_state s = PROG_STATE_WRITEFLASH \<or> prog_state s = PROG_STATE_WRITEEEPROM"
    and "length ch < 256"
  shows "usbFunctionWrite c (buffer_of ch) (of_nat (length ch)) s = write_bytes c ch (0, s)"
  using assms
  by (simp only: usbFunctionWrite_ok unat_chunk_length buffer_of_bytes)

lemma usbFunctionWrite_empty: "snd (usbFunctionWrite c data 0 s) = s"
  by (simp add: usbFunctionWrite_def write_loop_bytes write_bytes_def)

lemma write_chunks_empty:
  assumes "\<forall>ch\<in>set chs. ch = []"
  shows "snd (write_chunks c chs s) = s"
  using assms
proof (induction chs arbitrary: s)
  case Nil
  then show ?case by simp
next
  case (Cons ch chs)
  then have "ch = []" and rest: "\<forall>ch\<in>set chs. ch = []"
    by simp_all
  then have "snd (write_chunks c (ch # chs) s)
      = snd (write_chunks c chs (snd (usbFunctionWrite c (buffer_of []) 0 s)))"
    by (simp add: split_beta)
  then show ?case
    by (simp only: usbFunctionWrite_empty Cons.IH [OF rest])
qed

lemma write_chunks_bytes:
  assumes "prog_state s = PROG_STATE_WRITEFLASH \<or> prog_state s = PROG_STATE_WRITEEEPROM"
    and "length (concat chs) \<le> unat (prog_nbytes s)"
    and "\<forall>ch\<in>set chs. length ch < 256"
  shows "snd (write_chunks c chs s) = snd (write_bytes c (concat chs) (0, s))"
  using assms
proof (induction chs arbitrary: s)
  case Nil
  then show ?case by (simp add: write_bytes_def)
next
  case (Cons ch chs)
  obtain r1 s1 where one: "write_bytes c ch (0, s) = (r1, s1)"
    by (cases "write_bytes c ch (0, s)")
  have len: "length ch < 256" and lens: "\<forall>ch\<in>set chs. length ch < 256"
    using Cons.prems(3) by simp_all
  have call: "usbFunctionWrite c (buffer_of ch) (of_nat (length ch)) s = (r1, s1)"
    using write_chunk_bytes [OF Cons.prems(1) len] one by simp
  have total: "length ch + length (concat chs) \<le> unat (prog_nbytes s)"
    using Cons.prems(2) by simp
  have nb: "prog_nbytes s1 = prog_nbytes s - of_nat (length ch)"
    using write_bytes_nbytes [of c ch "(0, s)"] one by simp
  have unb: "unat (prog_nbytes s1) = unat (prog_nbytes s) - length ch"
    using total by (simp add: nb unat_sub_of_nat)
  have split: "snd (write_bytes c (concat (ch # chs)) (0, s))
      = snd (write_bytes c (concat chs) (0, s1))"
    using write_bytes_state_only [of c "concat chs" r1 s1 0]
    by (simp add: write_bytes_append one)
  have step: "snd (write_chunks c (ch # chs) s) = snd (write_chunks c chs s1)"
    by (simp add: call split_beta)
  show ?case
  proof (cases "0 < unat (prog_nbytes s) \<and> unat (prog_nbytes s) \<le> length ch")
    case True
    with total have "length (concat chs) = 0"
      by linarith
    then have e: "concat chs = []" "\<forall>ch\<in>set chs. ch = []"
      by simp_all
    show ?thesis
      by (simp only: step split write_chunks_empty [OF e(2)] e(1)) (simp add: write_bytes_def)
  next
    case False
    have "length ch < 65536"
      using len by simp
    from write_bytes_completion [OF this, of c "(0, s)"] False one
    have "prog_state s1 = prog_state s"
      by simp
    with Cons.prems(1) have m1: "prog_state s1 = PROG_STATE_WRITEFLASH
        \<or> prog_state s1 = PROG_STATE_WRITEEEPROM"
      by simp
    have l1: "length (concat chs) \<le> unat (prog_nbytes s1)"
      using total unb by simp
    show ?thesis
      by (simp only: step split Cons.IH [OF m1 l1 lens])
  qed
qed

lemma flushes_buffered: "filter is_flush (buffered_calls a bs) = []"
  by (simp add: buffered_calls_def filter_empty_conv split_beta)

lemma flushes_page:
  "filter is_flush (page_calls a bs) = [IspFlushPage (a + of_nat (length bs - 1)) (last bs)]"
  by (simp add: page_calls_def flushes_buffered)

lemma flushes_pages:
  "length (filter is_flush (concat (map (nth_page_calls P a bs) [0..<m]))) = m"
  by (induction m) (simp_all add: nth_page_calls_def flushes_page)

lemma ceil_div_not_dvd:
  fixes K P :: nat
  assumes "0 < P" and "\<not> P dvd K"
  shows "(K + P - 1) div P = K div P + 1"
proof -
  have "0 < K mod P"
    using assms by (simp add: dvd_eq_mod_eq_0)
  then obtain r where r: "K mod P = Suc r"
    by (cases "K mod P") simp_all
  then have "r < P"
    using mod_less_divisor [OF assms(1), of K] by simp
  have "K = K div P * P + Suc r"
    using r div_mult_mod_eq [of K P] by simp
  then have "K + P - 1 = r + (K div P + 1) * P"
    by simp
  then have "(K + P - 1) div P = (r + (K div P + 1) * P) div P"
    by simp
  also have "\<dots> = (K div P + 1) + r div P"
    using assms(1) div_mult_self1 [of P r "K div P + 1"] by (simp only: mult.commute)
  also have "\<dots> = K div P + 1"
    using \<open>r < P\<close> by simp
  finally show ?thesis .
qed

text \<open>
  For page sizes below 256 the invariant of the data model is established by a WriteFlash
  command with the First flag and kept by the write engine.
\<close>

lemma unat_ucast_u16_u8:
  fixes ps :: u16
  assumes "unat ps < 256"
  shows "unat (ucast ps :: u8) = unat ps"
  using assms by (simp add: unsigned_ucast_eq take_bit_eq_mod)

lemma page_inv_established:
  assumes "distinct (opcodes c)" and "data 1 = USBASP_FUNC_WRITEFLASH c"
    and "(data 5 AND 0x0F) AND PROG_BLOCKFLAG_FIRST c \<noteq> 0"
    and "0 < unat (prog_pagesize (snd (usbFunctionSetup c tg data s)))"
    and "unat (prog_pagesize (snd (usbFunctionSetup c tg data s))) < 256"
  shows "page_inv (snd (usbFunctionSetup c tg data s))
       \<and> unat (prog_pagecounter (snd (usbFunctionSetup c tg data s)))
           = unat (prog_pagesize (snd (usbFunctionSetup c tg data s)))"
proof -
  let ?s = "snd (usbFunctionSetup c tg data s)"
  have "prog_pagecounter ?s = ucast (prog_pagesize ?s)"
    using assms(1,2,3) by (simp add: setup_WRITEFLASH)
  then have "unat (prog_pagecounter ?s) = unat (prog_pagesize ?s)"
    using unat_ucast_u16_u8 [OF assms(5)] by simp
  with assms(4) show ?thesis
    by (simp add: page_inv_def)
qed

lemma page_inv_write_byte:
  assumes "page_inv s" and "unat (prog_pagesize s) < 256"
  shows "page_inv (snd (write_byte c d (r, s)))"
proof -
  from assms(1) have pc: "prog_pagecounter s \<noteq> 0"
    and le: "unat (prog_pagecounter s) \<le> unat (prog_pagesize s)"
    by (auto simp add: page_inv_def)
  have dec: "unat (prog_pagecounter s - 1) = unat (prog_pagecounter s) - 1"
    using pc by (rule unat_minus_one)
  have reset: "unat (ucast (prog_pagesize s) :: u8) = unat (prog_pagesize s)"
    using assms(2) by (rule unat_ucast_u16_u8)
  have pos: "0 < unat (prog_pagesize s)"
    using assms(1) by (simp add: page_inv_def)
  have nz: "0 < unat (prog_pagecounter s - 1)" if "prog_pagecounter s - 1 \<noteq> 0"
    using that by (simp add: unat_gt_0)
  show ?thesis
    using assms(1) dec reset pos le nz
    by (auto simp add: write_byte_def Let_def call_def page_inv_def)
qed

lemma page_inv_write_bytes:
  assumes "page_inv (snd rs)" and "unat (prog_pagesize (snd rs)) < 256"
  shows "page_inv (snd (write_bytes c bs rs))"
  using assms
proof (induction bs rule: rev_induct)
  case Nil
  then show ?case by (simp add: write_bytes_def)
next
  case (snoc d bs)
  obtain r1 s1 where a: "write_bytes c bs rs = (r1, s1)"
    by (cases "write_bytes c bs rs")
  from snoc a have "page_inv s1"
    by simp
  moreover have "unat (prog_pagesize s1) < 256"
    using write_bytes_geometry [of c bs rs] a snoc.prems(2) by simp
  ultimately show ?case
    by (simp add: write_bytes_snoc a page_inv_write_byte)
qed

lemma page_inv_usbFunctionWrite:
  assumes "page_inv s" and "unat (prog_pagesize s) < 256"
  shows "page_inv (snd (usbFunctionWrite c data len s))"
  using assms by (simp add: usbFunctionWrite_def write_loop_bytes page_inv_write_bytes)

section \<open>The claims\<close>

text \<open>
  C1, as stated, fails for a WriteFlash session that is not the first block of a write:
  the command sets the page counter only under the First flag, so the next block goes on in
  the page the previous block left open. After a first block of 3 bytes with a page of 4, a
  block of 4 bytes (a multiple of the page size) has its flush after the first byte, not
  after the fourth.
\<close>

theorem C1_counterexample:
  "prog_state sample_next_block_start = PROG_STATE_WRITEFLASH
   \<and> unat (prog_pagesize sample_next_block_start) = 4
   \<and> unat (prog_nbytes sample_next_block_start) = 4
   \<and> length (concat [[0xC4, 0xC5, 0xC6, 0xC7 :: u8]]) = 4
   \<and> (4::nat) dvd 4
   \<and> prog_address sample_next_block_start = 3
   \<and> calls sample_next_block_start
       = [IspWriteFlash 0 0xC1 0, IspWriteFlash 1 0xC2 0, IspWriteFlash 2 0xC3 0]
   \<and> calls (snd (write_chunks sample_h [[0xC4, 0xC5, 0xC6, 0xC7]] sample_next_block_start))
       = calls sample_next_block_start
         @ [IspWriteFlash 3 0xC4 0, IspFlushPage 3 0xC4, IspWriteFlash 4 0xC5 0,
            IspWriteFlash 5 0xC6 0, IspWriteFlash 6 0xC7 0]
   \<and> calls (snd (write_chunks sample_h [[0xC4, 0xC5, 0xC6, 0xC7]] sample_next_block_start))
       \<noteq> calls sample_next_block_start
         @ concat (map (nth_page_calls 4 (prog_address sample_next_block_start)
                          (concat [[0xC4, 0xC5, 0xC6, 0xC7]])) [0..<4 div 4])"
  by code_simp

text \<open>
  C1. For every WriteFlash session that starts with the page counter equal to the page size
  \<open>P > 0\<close> and in which \<open>K\<close> bytes are written, \<open>K\<close> a positive multiple of \<open>P\<close> and not
  more than the remaining byte count, the transport sees page by page \<open>P\<close> buffered writes
  followed by one flush at the page's last byte: exactly \<open>K/P\<close> flushes, each after exactly
  \<open>P\<close> bytes since the previous one or since the session start, however the bytes are cut
  into chunks. (The page counter has 8 bits, so a session can start this way only with
  \<open>P \<le> 255\<close>; larger page sizes are the matter of C2.)
\<close>

theorem C1_page_flushes:
  assumes "prog_state s = PROG_STATE_WRITEFLASH"
    and "0 < P" and "unat (prog_pagesize s) = P" and "unat (prog_pagecounter s) = P"
    and "length (concat chunks) = K" and "K \<le> unat (prog_nbytes s)"
    and "0 < K" and "P dvd K"
    and "\<forall>ch\<in>set chunks. length ch < 256"
  shows "calls (snd (write_chunks c chunks s)) =
           calls s @ concat (map (nth_page_calls P (prog_address s) (concat chunks))
                              [0..<K div P])
       \<and> length (filter is_flush (calls (snd (write_chunks c chunks s)))) =
           length (filter is_flush (calls s)) + K div P
       \<and> (\<forall>j<K div P. filter is_flush (nth_page_calls P (prog_address s) (concat chunks) j) =
             [IspFlushPage (prog_address s + of_nat (j * P + (P - 1)))
                (concat chunks ! (j * P + (P - 1)))])"
proof -
  let ?bs = "concat chunks" and ?m = "K div P"
  have K: "K = ?m * P"
    using assms(8) by simp
  have len: "length ?bs = ?m * P" and n: "?m * P \<le> unat (prog_nbytes s)"
    using assms(5,6) K by simp_all
  have "snd (write_chunks c chunks s) = snd (write_bytes c ?bs (0, s))"
    using assms(1,5,6,9) by (intro write_chunks_bytes) simp_all
  then have run: "calls (snd (write_chunks c chunks s)) =
      calls s @ concat (map (nth_page_calls P (prog_address s) ?bs) [0..<?m])"
    by (simp add: write_bytes_pages [OF assms(1,3,4,2) len n])
  have each: "filter is_flush (nth_page_calls P (prog_address s) ?bs j) =
             [IspFlushPage (prog_address s + of_nat (j * P + (P - 1))) (?bs ! (j * P + (P - 1)))]"
    if "j < ?m" for j
  proof -
    from that have "Suc j * P \<le> ?m * P"
      by (intro mult_le_mono1) simp
    then have le: "j * P + P \<le> length ?bs"
      using len by simp
    then have l: "length (take P (drop (j * P) ?bs)) = P"
      by simp
    have ne: "take P (drop (j * P) ?bs) \<noteq> []"
      using l assms(2) by auto
    have "last (take P (drop (j * P) ?bs)) = take P (drop (j * P) ?bs) ! (P - 1)"
      using l ne by (simp add: last_conv_nth)
    also have "\<dots> = ?bs ! (j * P + (P - 1))"
      using le assms(2) by simp
    finally have lst: "last (take P (drop (j * P) ?bs)) = ?bs ! (j * P + (P - 1))" .
    have "filter is_flush (nth_page_calls P (prog_address s) ?bs j) =
        [IspFlushPage (prog_address s + of_nat (j * P) + of_nat (P - 1))
           (last (take P (drop (j * P) ?bs)))]"
      by (simp only: nth_page_calls_def flushes_page l)
    then show ?thesis
      by (simp only: lst of_nat_add add.assoc)
  qed
  from run each show ?thesis
    by (simp add: flushes_pages)
qed

theorem C1_witness:
  "prog_state sample_paged_start = PROG_STATE_WRITEFLASH
   \<and> (0::nat) < 4
   \<and> unat (prog_pagesize sample_paged_start) = 4
   \<and> unat (prog_pagecounter sample_paged_start) = 4
   \<and> length (concat [[0xD1, 0xD2, 0xD3], [0xD4, 0xD5, 0xD6, 0xD7, 0xD8 :: u8]]) = 8
   \<and> 8 \<le> unat (prog_nbytes sample_paged_start)
   \<and> (4::nat) dvd 8
   \<and> length [0xD1, 0xD2, 0xD3 :: u8] < 256
   \<and> length [0xD4, 0xD5, 0xD6, 0xD7, 0xD8 :: u8] < 256
   \<and> calls (snd (write_chunks sample_h [[0xD1, 0xD2, 0xD3], [0xD4, 0xD5, 0xD6, 0xD7, 0xD8]]
          sample_paged_start))
       = [IspWriteFlash 0x100 0xD1 0, IspWriteFlash 0x101 0xD2 0, IspWriteFlash 0x102 0xD3 0,
          IspWriteFlash 0x103 0xD4 0, IspFlushPage 0x103 0xD4,
          IspWriteFlash 0x104 0xD5 0, IspWriteFlash 0x105 0xD6 0, IspWriteFlash 0x106 0xD7 0,
          IspWriteFlash 0x107 0xD8 0, IspFlushPage 0x107 0xD8]
   \<and> length (filter is_flush (calls (snd (write_chunks sample_h
          [[0xD1, 0xD2, 0xD3], [0xD4, 0xD5, 0xD6, 0xD7, 0xD8]] sample_paged_start)))) = 2"
proof -
  let ?chunks = "[[0xD1, 0xD2, 0xD3], [0xD4, 0xD5, 0xD6, 0xD7, 0xD8 :: u8]]"
  have h: "prog_state sample_paged_start = PROG_STATE_WRITEFLASH"
    "unat (prog_pagesize sample_paged_start) = 4"
    "unat (prog_pagecounter sample_paged_start) = 4"
    "8 \<le> unat (prog_nbytes sample_paged_start)"
    by code_simp+
  have g: "(0::nat) < 4" "length (concat ?chunks) = 8" "(0::nat) < 8" "(4::nat) dvd 8"
    "\<forall>ch\<in>set ?chunks. length ch < 256"
    by simp_all
  have e: "calls sample_paged_start = []" "prog_address sample_paged_start = 0x100"
    by code_simp+
  have p: "concat (map (nth_page_calls 4 0x100 (concat ?chunks)) [0..<8 div 4])
       = [IspWriteFlash 0x100 0xD1 0, IspWriteFlash 0x101 0xD2 0, IspWriteFlash 0x102 0xD3 0,
          IspWriteFlash 0x103 0xD4 0, IspFlushPage 0x103 0xD4,
          IspWriteFlash 0x104 0xD5 0, IspWriteFlash 0x105 0xD6 0, IspWriteFlash 0x106 0xD7 0,
          IspWriteFlash 0x107 0xD8 0, IspFlushPage 0x107 0xD8]"
    by code_simp
  note r = C1_page_flushes [OF h(1) g(1) h(2,3) g(2) h(4) g(3,4,5), of sample_h]
  from r [THEN conjunct1]
  have c: "calls (snd (write_chunks sample_h ?chunks sample_paged_start))
       = [IspWriteFlash 0x100 0xD1 0, IspWriteFlash 0x101 0xD2 0, IspWriteFlash 0x102 0xD3 0,
          IspWriteFlash 0x103 0xD4 0, IspFlushPage 0x103 0xD4,
          IspWriteFlash 0x104 0xD5 0, IspWriteFlash 0x105 0xD6 0, IspWriteFlash 0x106 0xD7 0,
          IspWriteFlash 0x107 0xD8 0, IspFlushPage 0x107 0xD8]"
    by (simp only: e p append_Nil)
  from r [THEN conjunct2, THEN conjunct1]
  have n: "length (filter is_flush (calls (snd (write_chunks sample_h ?chunks
          sample_paged_start)))) = 2"
    by (simp only: e) simp
  from h g c n show ?thesis
    by simp
qed

text \<open>
  C2. The WriteFlash command with the First flag is meant to set the page counter to the
  page size, and a page flush to reset it to the page size, so that
  \<open>0 < pageCounter \<le> pageSize\<close> holds. The page size has 12 significant bits, the counter
  is a \<^verbatim>\<open>uchar\<close>: with the page size 256 (low byte 0x00, flags byte 0x11) the command
  leaves the counter 0, and the invariant is broken from the start; with the page size 257
  the counter starts at 1, the first byte is flushed at once and the flush resets the
  counter to 1, not to the page size. (For page sizes below 256 the invariant is
  established and kept: page_inv_established, page_inv_usbFunctionWrite.)
\<close>

theorem C2_pagecounter_truncated:
  "buffer_of [0, 6, 0, 0, 0x00, 0x11, 0x00, 0x01] 1 = USBASP_FUNC_WRITEFLASH sample_h
   \<and> prog_state sample_page256_start = PROG_STATE_WRITEFLASH
   \<and> prog_blockflags sample_page256_start AND PROG_BLOCKFLAG_FIRST sample_h \<noteq> 0
   \<and> prog_pagesize sample_page256_start = 256
   \<and> prog_pagecounter sample_page256_start = 0
   \<and> \<not> page_inv sample_page256_start
   \<and> prog_state sample_page257_start = PROG_STATE_WRITEFLASH
   \<and> prog_blockflags sample_page257_start AND PROG_BLOCKFLAG_FIRST sample_h \<noteq> 0
   \<and> prog_pagesize sample_page257_start = 257
   \<and> prog_pagecounter sample_page257_start = 1
   \<and> calls (snd (usbFunctionWrite sample_h (buffer_of [0xF1]) 1 sample_page257_start))
       = [IspWriteFlash 0 0xF1 0, IspFlushPage 0 0xF1]
   \<and> prog_pagecounter (snd (usbFunctionWrite sample_h (buffer_of [0xF1]) 1
         sample_page257_start)) = 1"
  by code_simp

text \<open>
  C3, as stated, fails for a last block that goes on in a page the previous block left
  open: after a first block of 3 bytes with a page of 4, a last block of 2 bytes has two
  flushes (the page filled by its first byte, and the forced one at the end), not
  \<open>\<lceil>2/4\<rceil> = 1\<close>.
\<close>

theorem C3_counterexample:
  "prog_state sample_last_block_start = PROG_STATE_WRITEFLASH
   \<and> unat (prog_pagesize sample_last_block_start) = 4
   \<and> prog_blockflags sample_last_block_start AND PROG_BLOCKFLAG_LAST sample_h \<noteq> 0
   \<and> unat (prog_nbytes sample_last_block_start) = 2
   \<and> length (concat [[0xC4, 0xC5 :: u8]]) = 2
   \<and> \<not> (4::nat) dvd 2
   \<and> calls sample_last_block_start
       = [IspWriteFlash 0 0xC1 0, IspWriteFlash 1 0xC2 0, IspWriteFlash 2 0xC3 0]
   \<and> calls (snd (write_chunks sample_h [[0xC4, 0xC5]] sample_last_block_start))
       = calls sample_last_block_start
         @ [IspWriteFlash 3 0xC4 0, IspFlushPage 3 0xC4, IspWriteFlash 4 0xC5 0,
            IspFlushPage 4 0xC5]
   \<and> length (filter is_flush
        (calls (snd (write_chunks sample_h [[0xC4, 0xC5]] sample_last_block_start))))
       \<noteq> length (filter is_flush (calls sample_last_block_start)) + ((2::nat) + 4 - 1) div 4"
  by code_simp

text \<open>
  C3. For every WriteFlash session that starts with the page counter equal to the page size
  \<open>P > 0\<close>, has the Last flag set and writes all its \<open>K\<close> bytes, \<open>K\<close> not a multiple of
  \<open>P\<close>: the transport sees the \<open>K div P\<close> full pages, each with its flush, then the
  buffered writes of the trailing bytes and one flush at the last byte. These are exactly
  \<open>\<lceil>K/P\<rceil>\<close> flushes. The last one comes with the remaining byte count at 0 and the page
  counter at \<open>P - K mod P\<close>, which is neither 0 nor the page size: it is the flush forced
  by completion, not the one of a full page. (Again this covers \<open>P \<le> 255\<close>.)
\<close>

theorem C3_trailing_page_flush:
  assumes "prog_state s = PROG_STATE_WRITEFLASH"
    and "0 < P" and "unat (prog_pagesize s) = P" and "unat (prog_pagecounter s) = P"
    and "prog_blockflags s AND PROG_BLOCKFLAG_LAST c \<noteq> 0"
    and "length (concat chunks) = K" and "unat (prog_nbytes s) = K"
    and "\<not> P dvd K"
    and "\<forall>ch\<in>set chunks. length ch < 256"
  shows "calls (snd (write_chunks c chunks s)) =
           calls s
           @ concat (map (nth_page_calls P (prog_address s) (concat chunks)) [0..<K div P])
           @ buffered_calls (prog_address s + of_nat (K div P * P))
               (drop (K div P * P) (concat chunks))
           @ [IspFlushPage (prog_address s + of_nat (K - 1)) (last (concat chunks))]
       \<and> length (filter is_flush (calls (snd (write_chunks c chunks s)))) =
           length (filter is_flush (calls s)) + (K + P - 1) div P
       \<and> prog_nbytes (snd (write_chunks c chunks s)) = 0
       \<and> prog_state (snd (write_chunks c chunks s)) = PROG_STATE_IDLE
       \<and> unat (prog_pagecounter (snd (write_chunks c chunks s))) = P - K mod P
       \<and> prog_pagecounter (snd (write_chunks c chunks s)) \<noteq> 0
       \<and> ucast (prog_pagecounter (snd (write_chunks c chunks s)))
           \<noteq> prog_pagesize (snd (write_chunks c chunks s))"
proof -
  let ?bs = "concat chunks" and ?m = "K div P" and ?r = "K mod P"
  let ?bs1 = "take (?m * P) ?bs" and ?bs2 = "drop (?m * P) ?bs"
  have r: "0 < ?r" "?r < P"
    using assms(2,8) by (simp_all add: dvd_eq_mod_eq_0)
  have K: "K = ?m * P + ?r"
    by simp
  have mK: "?m * P \<le> K" "?m * P \<noteq> K"
    using r(1) K by linarith+
  define s1 where "s1 = s\<lparr>prog_address := prog_address s + of_nat (?m * P),
       prog_nbytes := prog_nbytes s - of_nat (?m * P),
       prog_state := PROG_STATE_WRITEFLASH,
       calls := calls s @ concat (map (nth_page_calls P (prog_address s) ?bs1) [0..<?m])\<rparr>"
  have len1: "length ?bs1 = ?m * P" and len2: "length ?bs2 = ?r"
    using assms(6) mK(1) by (simp_all add: minus_div_mult_eq_mod)
  have n1: "?m * P \<le> unat (prog_nbytes s)"
    using assms(7) mK(1) by simp
  have first: "write_bytes c ?bs1 (0, s) = (0, s1)"
    using write_bytes_pages [OF assms(1,3,4,2) len1 n1, of c 0] mK(2) assms(7)
    by (simp add: s1_def)
  have pages: "map (nth_page_calls P (prog_address s) ?bs1) [0..<?m]
      = map (nth_page_calls P (prog_address s) ?bs) [0..<?m]"
    by (simp add: nth_page_calls_take)
  have st: "prog_state s1 = PROG_STATE_WRITEFLASH" "prog_pagesize s1 \<noteq> 0"
    using assms(2,3) by (auto simp add: s1_def)
  have ne: "?bs2 \<noteq> []"
    using len2 r(1) by auto
  have pc: "length ?bs2 < unat (prog_pagecounter s1)"
    using len2 r(2) assms(4) by (simp add: s1_def)
  have "unat (prog_nbytes s1) = unat (prog_nbytes s) - ?m * P"
    using unat_sub_of_nat [OF n1] by (simp add: s1_def)
  then have nb: "length ?bs2 = unat (prog_nbytes s1)"
    using len2 assms(7) by (simp add: minus_div_mult_eq_mod)
  have fl: "prog_blockflags s1 AND PROG_BLOCKFLAG_LAST c \<noteq> 0"
    using assms(5) by (simp add: s1_def)
  have upc: "unat (prog_pagecounter s1 - of_nat ?r) = P - ?r"
    using unat_sub_of_nat [of ?r "prog_pagecounter s"] r(2) assms(4) by (simp add: s1_def)
  have "unat (ucast (prog_pagecounter s1 - of_nat ?r) :: u16) \<noteq> unat (prog_pagesize s1)"
    using upc r assms(3) by (simp add: unat_ucast_u8_u16 s1_def)
  then have differ: "ucast (prog_pagecounter s1 - of_nat ?r) \<noteq> prog_pagesize s1"
    by auto
  have nz: "prog_pagecounter s1 - of_nat ?r \<noteq> 0"
    using upc r by auto
  have "snd (write_chunks c chunks s) = snd (write_bytes c ?bs (0, s))"
    using assms(1,6,7,9) by (intro write_chunks_bytes) simp_all
  also have "write_bytes c ?bs (0, s) = write_bytes c ?bs2 (write_bytes c ?bs1 (0, s))"
    using write_bytes_append [of c ?bs1 ?bs2 "(0, s)"] by simp
  also have "\<dots> = write_bytes c ?bs2 (0, s1)"
    by (simp only: first)
  also note write_bytes_tail [OF st ne pc nb, of c 0]
  finally have fin: "snd (write_chunks c chunks s) =
      s1\<lparr>prog_address := prog_address s1 + of_nat ?r,
         prog_nbytes := 0,
         prog_pagecounter := prog_pagecounter s1 - of_nat ?r,
         prog_state := PROG_STATE_IDLE,
         calls := calls s1 @ buffered_calls (prog_address s1) ?bs2
           @ [IspFlushPage (prog_address s1 + of_nat (?r - 1)) (last ?bs2)]\<rparr>"
    by (simp only: len2 fl differ snd_conv if_True simp_thms)
  have la: "last ?bs2 = last ?bs"
    using ne by simp
  have "?m * P + (?r - 1) = K - 1"
    using r(1) K by linarith
  then have ad: "prog_address s + of_nat (?m * P) + of_nat (?r - 1) = prog_address s + of_nat (K - 1)"
    by (simp only: add.assoc of_nat_add [symmetric])
  have c1: "calls s1 = calls s @ concat (map (nth_page_calls P (prog_address s) ?bs) [0..<?m])"
    and a1: "prog_address s1 = prog_address s + of_nat (?m * P)"
    by (simp_all only: s1_def pages) simp_all
  have "calls (snd (write_chunks c chunks s)) =
      calls s1 @ buffered_calls (prog_address s1) ?bs2
           @ [IspFlushPage (prog_address s1 + of_nat (?r - 1)) (last ?bs2)]"
    unfolding fin by simp
  then have run: "calls (snd (write_chunks c chunks s)) =
           calls s
           @ concat (map (nth_page_calls P (prog_address s) ?bs) [0..<?m])
           @ buffered_calls (prog_address s + of_nat (?m * P)) ?bs2
           @ [IspFlushPage (prog_address s + of_nat (K - 1)) (last ?bs)]"
    by (simp only: c1 a1 la ad append_assoc)
  have cnt: "length (filter is_flush (calls (snd (write_chunks c chunks s)))) =
           length (filter is_flush (calls s)) + (K + P - 1) div P"
    unfolding run ceil_div_not_dvd [OF assms(2,8)]
    by (simp add: flushes_pages flushes_buffered)
  have rest: "prog_nbytes (snd (write_chunks c chunks s)) = 0"
    "prog_state (snd (write_chunks c chunks s)) = PROG_STATE_IDLE"
    "prog_pagecounter (snd (write_chunks c chunks s)) = prog_pagecounter s1 - of_nat ?r"
    "prog_pagesize (snd (write_chunks c chunks s)) = prog_pagesize s1"
    unfolding fin by simp_all
  from run cnt rest upc nz differ show ?thesis
    by simp
qed

theorem C3_witness:
  "prog_state sample_short_start = PROG_STATE_WRITEFLASH
   \<and> (0::nat) < 4
   \<and> unat (prog_pagesize sample_short_start) = 4
   \<and> unat (prog_pagecounter sample_short_start) = 4
   \<and> prog_blockflags sample_short_start AND PROG_BLOCKFLAG_LAST sample_h \<noteq> 0
   \<and> length (concat [[0xE1, 0xE2, 0xE3], [0xE4, 0xE5, 0xE6 :: u8]]) = 6
   \<and> unat (prog_nbytes sample_short_start) = 6
   \<and> \<not> (4::nat) dvd 6
   \<and> length [0xE1, 0xE2, 0xE3 :: u8] < 256
   \<and> length [0xE4, 0xE5, 0xE6 :: u8] < 256
   \<and> calls (snd (write_chunks sample_h [[0xE1, 0xE2, 0xE3], [0xE4, 0xE5, 0xE6]]
          sample_short_start))
       = [IspWriteFlash 0x100 0xE1 0, IspWriteFlash 0x101 0xE2 0, IspWriteFlash 0x102 0xE3 0,
          IspWriteFlash 0x103 0xE4 0, IspFlushPage 0x103 0xE4,
          IspWriteFlash 0x104 0xE5 0, IspWriteFlash 0x105 0xE6 0, IspFlushPage 0x105 0xE6]
   \<and> length (filter is_flush (calls (snd (write_chunks sample_h
          [[0xE1, 0xE2, 0xE3], [0xE4, 0xE5, 0xE6]] sample_short_start)))) = 2
   \<and> unat (prog_pagecounter (snd (write_chunks sample_h
          [[0xE1, 0xE2, 0xE3], [0xE4, 0xE5, 0xE6]] sample_short_start))) = 2"
proof -
  let ?chunks = "[[0xE1, 0xE2, 0xE3], [0xE4, 0xE5, 0xE6 :: u8]]"
  have h: "prog_state sample_short_start = PROG_STATE_WRITEFLASH"
    "unat (prog_pagesize sample_short_start) = 4"
    "unat (prog_pagecounter sample_short_start) = 4"
    "prog_blockflags sample_short_start AND PROG_BLOCKFLAG_LAST sample_h \<noteq> 0"
    "unat (prog_nbytes sample_short_start) = 6"
    by code_simp+
  have g: "(0::nat) < 4" "length (concat ?chunks) = 6" "\<not> (4::nat) dvd 6"
    "\<forall>ch\<in>set ?chunks. length ch < 256"
    by simp_all
  have e: "calls sample_short_start = []" "prog_address sample_short_start = 0x100"
    by code_simp+
  have p: "concat (map (nth_page_calls 4 0x100 (concat ?chunks)) [0..<6 div 4])
           @ buffered_calls (0x100 + of_nat (6 div 4 * 4)) (drop (6 div 4 * 4) (concat ?chunks))
           @ [IspFlushPage (0x100 + of_nat (6 - 1)) (last (concat ?chunks))]
       = [IspWriteFlash 0x100 0xE1 0, IspWriteFlash 0x101 0xE2 0, IspWriteFlash 0x102 0xE3 0,
          IspWriteFlash 0x103 0xE4 0, IspFlushPage 0x103 0xE4,
          IspWriteFlash 0x104 0xE5 0, IspWriteFlash 0x105 0xE6 0, IspFlushPage 0x105 0xE6]"
    by code_simp
  note r = C3_trailing_page_flush [OF h(1) g(1) h(2,3,4) g(2) h(5) g(3,4)]
  from r [THEN conjunct1]
  have c: "calls (snd (write_chunks sample_h ?chunks sample_short_start))
       = [IspWriteFlash 0x100 0xE1 0, IspWriteFlash 0x101 0xE2 0, IspWriteFlash 0x102 0xE3 0,
          IspWriteFlash 0x103 0xE4 0, IspFlushPage 0x103 0xE4,
          IspWriteFlash 0x104 0xE5 0, IspWriteFlash 0x105 0xE6 0, IspFlushPage 0x105 0xE6]"
    by (simp only: e p append_Nil)
  from r [THEN conjunct2, THEN conjunct1]
  have n: "length (filter is_flush (calls (snd (write_chunks sample_h ?chunks
          sample_short_start)))) = 2"
    by (simp only: e) simp
  from r [THEN conjunct2, THEN conjunct2, THEN conjunct2, THEN conjunct2, THEN conjunct1]
  have q: "unat (prog_pagecounter (snd (write_chunks sample_h ?chunks
          sample_short_start))) = 2"
    by simp
  from h g c n q show ?thesis
    by simp
qed

text \<open>
  C4. A read-chunk call of length \<open>L\<close> made in ReadFlash or ReadEeprom mode returns \<open>L\<close>,
  puts at the offsets \<open>0, \<dots>, L-1\<close> of the output the bytes the target holds at
  \<open>address, address+1, \<dots>, address+L-1\<close> (flash or EEPROM as the mode says, fetched in
  this order), leaves the rest of the buffer alone, advances the address by \<open>L\<close>, and sets
  the mode to Idle if and only if \<open>L < 8\<close>. Across a session of \<open>N\<close> bytes, cut into full
  chunks of 8 and the final short chunk, the concatenation of the chunks is the \<open>N\<close> bytes
  from the start address on; the mode is kept after every full chunk and is Idle at the end.
\<close>

theorem C4_read_engine:
  assumes "prog_state s = PROG_STATE_READFLASH \<or> prog_state s = PROG_STATE_READEEPROM"
  shows "(case usbFunctionRead tg data len s of (r, data', s') \<Rightarrow>
            r = len
          \<and> map data' [0..<unat len] = target_bytes tg (prog_state s) (prog_address s) (unat len)
          \<and> (\<forall>k. unat len \<le> k \<longrightarrow> data' k = data k)
          \<and> calls s' = calls s
                @ map (\<lambda>k. read_call (prog_state s) (prog_address s + of_nat k)) [0..<unat len]
          \<and> prog_address s' = prog_address s + of_nat (unat len)
          \<and> (prog_state s' = PROG_STATE_IDLE \<longleftrightarrow> len < 8)
          \<and> (\<not> len < 8 \<longrightarrow> prog_state s' = prog_state s))
       \<and> (case read_chunks tg (read_chunking N) s of (outs, s') \<Rightarrow>
            map fst outs = read_chunking N
          \<and> concat (map snd outs) = target_bytes tg (prog_state s) (prog_address s) N
          \<and> calls s' = calls s
                @ map (\<lambda>k. read_call (prog_state s) (prog_address s + of_nat k)) [0..<N]
          \<and> prog_address s' = prog_address s + of_nat N
          \<and> prog_state s' = PROG_STATE_IDLE)
       \<and> (\<forall>j\<le>N div 8. prog_state (snd (read_chunks tg (replicate j 8) s)) = prog_state s)"
proof -
  have one: "case usbFunctionRead tg data len s of (r, data', s') \<Rightarrow>
            r = len
          \<and> map data' [0..<unat len] = target_bytes tg (prog_state s) (prog_address s) (unat len)
          \<and> (\<forall>k. unat len \<le> k \<longrightarrow> data' k = data k)
          \<and> calls s' = calls s
                @ map (\<lambda>k. read_call (prog_state s) (prog_address s + of_nat k)) [0..<unat len]
          \<and> prog_address s' = prog_address s + of_nat (unat len)
          \<and> (prog_state s' = PROG_STATE_IDLE \<longleftrightarrow> len < 8)
          \<and> (\<not> len < 8 \<longrightarrow> prog_state s' = prog_state s)"
    using assms by (auto simp add: usbFunctionRead_ok target_bytes_def)
  have whole: "case read_chunks tg (read_chunking N) s of (outs, s') \<Rightarrow>
            map fst outs = read_chunking N
          \<and> concat (map snd outs) = target_bytes tg (prog_state s) (prog_address s) N
          \<and> calls s' = calls s
                @ map (\<lambda>k. read_call (prog_state s) (prog_address s + of_nat k)) [0..<N]
          \<and> prog_address s' = prog_address s + of_nat N
          \<and> prog_state s' = PROG_STATE_IDLE"
    using read_session [OF assms, where tg = tg and N = N] by (simp add: split_beta)
  have "prog_state (snd (read_chunks tg (replicate j 8) s)) = prog_state s" for j
    using read_chunks_full [of s "replicate j 8" tg] assms by simp
  with one whole show ?thesis
    by blast
qed

theorem C4_witness:
  "(prog_state sample_read_start = PROG_STATE_READFLASH
      \<or> prog_state sample_read_start = PROG_STATE_READEEPROM)
   \<and> prog_address sample_read_start = 0x10
   \<and> fst (read_chunks sample_target (read_chunking 10) sample_read_start)
        = [(8, [0xEF, 0xEE, 0xED, 0xEC, 0xEB, 0xEA, 0xE9, 0xE8]), (2, [0xE7, 0xE6])]
   \<and> concat (map snd (fst (read_chunks sample_target (read_chunking 10) sample_read_start)))
        = target_bytes sample_target PROG_STATE_READEEPROM 0x10 10
   \<and> prog_state (snd (read_chunks sample_target (read_chunking 10) sample_read_start))
        = PROG_STATE_IDLE
   \<and> prog_state (snd (read_chunks sample_target [8] sample_read_start))
        = PROG_STATE_READEEPROM"
proof -
  have m: "prog_state sample_read_start = PROG_STATE_READEEPROM"
    by code_simp
  have a: "prog_address sample_read_start = 0x10"
    by code_simp
  have e: "fst (read_chunks sample_target (read_chunking 10) sample_read_start)
        = [(8, [0xEF, 0xEE, 0xED, 0xEC, 0xEB, 0xEA, 0xE9, 0xE8]), (2, [0xE7, 0xE6])]"
    by code_simp
  have j: "(1::nat) \<le> 10 div 8"
    by simp
  note r = C4_read_engine [where s = sample_read_start and tg = sample_target and N = 10
      and data = "\<lambda>_. 0" and len = 8]
  from r m a
  have c: "concat (map snd (fst (read_chunks sample_target (read_chunking 10) sample_read_start)))
        = target_bytes sample_target PROG_STATE_READEEPROM 0x10 10"
    by (simp only: split_beta) simp
  from r m
  have i: "prog_state (snd (read_chunks sample_target (read_chunking 10) sample_read_start))
        = PROG_STATE_IDLE"
    by (simp only: split_beta) simp
  from r m
  have "\<forall>j\<le>10 div 8. prog_state (snd (read_chunks sample_target (replicate j 8)
           sample_read_start)) = PROG_STATE_READEEPROM"
    by (simp only: split_beta) simp
  then have "prog_state (snd (read_chunks sample_target (replicate 1 8) sample_read_start))
        = PROG_STATE_READEEPROM"
    using j by blast
  then have f: "prog_state (snd (read_chunks sample_target [8] sample_read_start))
        = PROG_STATE_READEEPROM"
    by simp
  from m a e c i f show ?thesis
    by simp
qed

text \<open>
  C5. A write-chunk call made in WriteFlash or WriteEeprom mode returns 1 if the remaining
  byte count reached 0 at some byte of this call and 0 otherwise. The call on \<open>len\<close> bytes
  passes through the result of the call on its first \<open>k\<close> bytes, for every \<open>k \<le> len\<close>;
  after \<open>k\<close> bytes the count has gone down by \<open>k\<close>, and the mode is Idle exactly when the
  count reached 0 at one of these \<open>k\<close> bytes, so the mode changes at that very byte, also
  in the middle of the chunk.
\<close>

theorem C5_write_completion:
  assumes "prog_state s = PROG_STATE_WRITEFLASH \<or> prog_state s = PROG_STATE_WRITEEEPROM"
  shows "fst (usbFunctionWrite c data len s) =
           (if \<exists>k. 0 < k \<and> k \<le> unat len
                  \<and> prog_nbytes (snd (usbFunctionWrite c data (of_nat k) s)) = 0
            then 1 else 0)
       \<and> (\<forall>k. k \<le> unat len \<longrightarrow>
             usbFunctionWrite c data len s =
               write_loop c data len (of_nat k) (usbFunctionWrite c data (of_nat k) s)
           \<and> prog_nbytes (snd (usbFunctionWrite c data (of_nat k) s)) = prog_nbytes s - of_nat k
           \<and> prog_state (snd (usbFunctionWrite c data (of_nat k) s)) =
               (if \<exists>j. 0 < j \<and> j \<le> k
                      \<and> prog_nbytes (snd (usbFunctionWrite c data (of_nat j) s)) = 0
                then PROG_STATE_IDLE else prog_state s))"
proof -
  let ?n = "unat (prog_nbytes s)"
  have L: "unat len < 65536"
    using unat_u8_less [of len] by simp
  have nb: "prog_nbytes (snd (usbFunctionWrite c data (of_nat k) s)) = prog_nbytes s - of_nat k"
    if "k \<le> unat len" for k
    using that assms by (simp add: write_prefix_facts)
  have ex: "(\<exists>j. 0 < j \<and> j \<le> k
                \<and> prog_nbytes (snd (usbFunctionWrite c data (of_nat j) s)) = 0)
          \<longleftrightarrow> 0 < ?n \<and> ?n \<le> k" if "k \<le> unat len" for k
  proof -
    have "(\<exists>j. 0 < j \<and> j \<le> k
                \<and> prog_nbytes (snd (usbFunctionWrite c data (of_nat j) s)) = 0)
        \<longleftrightarrow> (\<exists>j. 0 < j \<and> j \<le> k \<and> prog_nbytes s - of_nat j = 0)"
      using that nb by (metis le_trans)
    also have "\<dots> \<longleftrightarrow> 0 < ?n \<and> ?n \<le> k"
      using that L by (intro reach_zero_iff) simp
    finally show ?thesis .
  qed
  have "fst (usbFunctionWrite c data len s) = (if 0 < ?n \<and> ?n \<le> unat len then 1 else 0)"
    using write_prefix_facts(4) [OF assms order_refl, of c data len] by simp
  then have ret: "fst (usbFunctionWrite c data len s) =
           (if \<exists>k. 0 < k \<and> k \<le> unat len
                  \<and> prog_nbytes (snd (usbFunctionWrite c data (of_nat k) s)) = 0
            then 1 else 0)"
    by (simp only: ex [OF order_refl])
  have st: "prog_state (snd (usbFunctionWrite c data (of_nat k) s)) =
               (if \<exists>j. 0 < j \<and> j \<le> k
                      \<and> prog_nbytes (snd (usbFunctionWrite c data (of_nat j) s)) = 0
                then PROG_STATE_IDLE else prog_state s)" if "k \<le> unat len" for k
    using write_prefix_facts(3) [OF assms that, of c data] by (simp only: ex [OF that])
  have res: "usbFunctionWrite c data len s =
               write_loop c data len (of_nat k) (usbFunctionWrite c data (of_nat k) s)"
    if "k \<le> unat len" for k
    using assms that by (rule usbFunctionWrite_resume)
  from ret st res nb show ?thesis
    by blast
qed

theorem C5_witness:
  "(prog_state sample_eeprom_write_start = PROG_STATE_WRITEFLASH
      \<or> prog_state sample_eeprom_write_start = PROG_STATE_WRITEEEPROM)
   \<and> prog_nbytes sample_eeprom_write_start = 3
   \<and> fst (usbFunctionWrite sample_h (buffer_of [0xA1, 0xA2, 0xA3, 0xA4, 0xA5]) 5
            sample_eeprom_write_start) = 1
   \<and> prog_state (snd (usbFunctionWrite sample_h (buffer_of [0xA1, 0xA2, 0xA3, 0xA4, 0xA5]) 2
            sample_eeprom_write_start)) = PROG_STATE_WRITEEEPROM
   \<and> prog_state (snd (usbFunctionWrite sample_h (buffer_of [0xA1, 0xA2, 0xA3, 0xA4, 0xA5]) 3
            sample_eeprom_write_start)) = PROG_STATE_IDLE"
proof -
  let ?d = "buffer_of [0xA1, 0xA2, 0xA3, 0xA4, 0xA5]"
  have m: "prog_state sample_eeprom_write_start = PROG_STATE_WRITEEEPROM"
    by code_simp
  have n: "prog_nbytes sample_eeprom_write_start = 3"
    by code_simp
  have z: "prog_nbytes (snd (usbFunctionWrite sample_h ?d (of_nat 3) sample_eeprom_write_start)) = 0"
    by code_simp
  have k: "(0::nat) < 3 \<and> (3::nat) \<le> unat (5::u8)"
    by simp
  note r = C5_write_completion [where s = sample_eeprom_write_start and c = sample_h
      and data = ?d and len = 5]
  from r m have "fst (usbFunctionWrite sample_h ?d 5 sample_eeprom_write_start) =
           (if \<exists>k. 0 < k \<and> k \<le> unat (5::u8)
                  \<and> prog_nbytes (snd (usbFunctionWrite sample_h ?d (of_nat k)
                        sample_eeprom_write_start)) = 0
            then 1 else 0)"
    by blast
  moreover from z k have "\<exists>k. 0 < k \<and> k \<le> unat (5::u8)
                  \<and> prog_nbytes (snd (usbFunctionWrite sample_h ?d (of_nat k)
                        sample_eeprom_write_start)) = 0"
    by blast
  ultimately have ret: "fst (usbFunctionWrite sample_h ?d 5 sample_eeprom_write_start) = 1"
    by simp
  have s2: "prog_state (snd (usbFunctionWrite sample_h ?d 2 sample_eeprom_write_start))
      = PROG_STATE_WRITEEEPROM"
    by code_simp
  have ex: "\<exists>j. 0 < j \<and> j \<le> 3
      \<and> prog_nbytes (snd (usbFunctionWrite sample_h ?d (of_nat j) sample_eeprom_write_start)) = 0"
    using z by (intro exI [where x = 3]) simp
  have le: "(3::nat) \<le> unat (5::u8)"
    by simp
  note r [OF disjI2 [OF m], THEN conjunct2, THEN spec [where x = "3::nat"], THEN mp, OF le,
      THEN conjunct2, THEN conjunct2]
  then have "prog_state (snd (usbFunctionWrite sample_h ?d (of_nat 3)
      sample_eeprom_write_start)) = PROG_STATE_IDLE"
    by (simp only: le ex if_True simp_thms)
  then have s3: "prog_state (snd (usbFunctionWrite sample_h ?d 3 sample_eeprom_write_start))
      = PROG_STATE_IDLE"
    by simp
  from m n ret s2 s3 show ?thesis
    by simp
qed



text \<open>
  C7. For every WriteFlash command descriptor the dispatcher decodes
  \<open>pageSize = data[4] + ((data[5] & 0xF0) << 4)\<close> and \<open>blockFlags = data[5] & 0x0F\<close>.
  The 16-bit sum cannot overflow: as numbers, the page size is the low byte plus 256 times
  the high nibble of the flags byte, and the block flags are its low nibble.
\<close>

theorem C7_writeflash_bit_packing:
  assumes "distinct (opcodes c)" and "data 1 = USBASP_FUNC_WRITEFLASH c"
  shows "prog_pagesize (snd (usbFunctionSetup c tg data s))
           = ucast (data 4) + push_bit 4 (ucast (data 5) AND 0xF0)
       \<and> prog_blockflags (snd (usbFunctionSetup c tg data s)) = data 5 AND 0x0F
       \<and> unat (prog_pagesize (snd (usbFunctionSetup c tg data s)))
           = unat (data 4) + 256 * (unat (data 5) div 16)
       \<and> unat (prog_blockflags (snd (usbFunctionSetup c tg data s))) = unat (data 5) mod 16"
proof -
  let ?s = "snd (usbFunctionSetup c tg data s)"
  have ps: "prog_pagesize ?s = ucast (data 4) + push_bit 4 (ucast (data 5) AND 0xF0)"
    and bf: "prog_blockflags ?s = data 5 AND 0x0F"
    using assms by (simp_all add: setup_WRITEFLASH)
  show ?thesis
    unfolding ps bf by (intro conjI refl pagesize_unat flags_unat)
qed

theorem C7_witness:
  "distinct (opcodes sample_h)
   \<and> buffer_of [0, 6, 0, 0, 0x34, 0x12, 0x40, 0] 1 = USBASP_FUNC_WRITEFLASH sample_h
   \<and> prog_pagesize (snd (usbFunctionSetup sample_h sample_target
         (buffer_of [0, 6, 0, 0, 0x34, 0x12, 0x40, 0]) (session_init sample_h))) = 0x134
   \<and> prog_blockflags (snd (usbFunctionSetup sample_h sample_target
         (buffer_of [0, 6, 0, 0, 0x34, 0x12, 0x40, 0]) (session_init sample_h))) = 0x02"
proof -
  have o: "buffer_of [0, 6, 0, 0, 0x34, 0x12, 0x40, 0] 1 = USBASP_FUNC_WRITEFLASH sample_h"
    by (simp add: buffer_of_def sample_h_def)
  have v: "buffer_of [0, 6, 0, 0, 0x34, 0x12, 0x40, 0] 4 = 0x34"
    "buffer_of [0, 6, 0, 0, 0x34, 0x12, 0x40, 0] 5 = 0x12"
    by (simp_all add: buffer_of_def)
  note r = C7_writeflash_bit_packing [of sample_h "buffer_of [0, 6, 0, 0, 0x34, 0x12, 0x40, 0]"
      sample_target "session_init sample_h", OF distinct_sample_opcodes o]
  have "prog_pagesize (snd (usbFunctionSetup sample_h sample_target
         (buffer_of [0, 6, 0, 0, 0x34, 0x12, 0x40, 0]) (session_init sample_h))) = 0x134"
    using r by (simp add: v)
  moreover have "prog_blockflags (snd (usbFunctionSetup sample_h sample_target
         (buffer_of [0, 6, 0, 0, 0x34, 0x12, 0x40, 0]) (session_init sample_h))) = 0x02"
    using r by (simp add: v)
  ultimately show ?thesis
    using distinct_sample_opcodes o by simp
qed

text \<open>
  C8. After SetExtendedAddress followed immediately by a read or write command, the
  session's address is the one the extended-address command carried, whatever inline
  address the second command has; in particular SetExtendedAddress(0x01020304) followed by
  WriteFlash with the inline address 0x9999 leaves the address 0x01020304 (the witness).
  In general, while the extended-address mode is on, a read or write command leaves the
  address as it is, and the mode stays on.
\<close>

theorem C8_inline_address_ignored:
  assumes "distinct (opcodes c)"
    and "d1 1 = USBASP_FUNC_SETLONGADDRESS c"
    and "d2 1 \<in> {USBASP_FUNC_READFLASH c, USBASP_FUNC_READEEPROM c,
                  USBASP_FUNC_WRITEFLASH c, USBASP_FUNC_WRITEEEPROM c}"
  shows "prog_address (snd (usbFunctionSetup c tg d2 (snd (usbFunctionSetup c tg d1 s))))
           = long_address d1
       \<and> (prog_address_newmode s \<noteq> 0 \<longrightarrow>
             prog_address (snd (usbFunctionSetup c tg d2 s)) = prog_address s
           \<and> prog_address_newmode (snd (usbFunctionSetup c tg d2 s)) \<noteq> 0)"
proof -
  from assms(1,3) have ne: "d2 1 \<noteq> USBASP_FUNC_SETLONGADDRESS c" "d2 1 \<noteq> USBASP_FUNC_CONNECT c"
    by (auto simp add: opcodes_def)
  with assms(1,2) show ?thesis
    by (simp add: setup_SETLONGADDRESS setup_keeps_long_address setup_keeps_newmode)
qed

theorem C8_witness:
  "distinct (opcodes sample_h)
   \<and> buffer_of [0, 9, 0x04, 0x03, 0x02, 0x01, 0, 0] 1 = USBASP_FUNC_SETLONGADDRESS sample_h
   \<and> buffer_of [0, 6, 0x99, 0x99, 0x40, 0x01, 0x40, 0] 1 = USBASP_FUNC_WRITEFLASH sample_h
   \<and> prog_address_newmode (snd (usbFunctionSetup sample_h sample_target
          (buffer_of [0, 9, 0x04, 0x03, 0x02, 0x01, 0, 0]) (session_init sample_h))) \<noteq> 0
   \<and> prog_address (snd (usbFunctionSetup sample_h sample_target
          (buffer_of [0, 6, 0x99, 0x99, 0x40, 0x01, 0x40, 0])
          (snd (usbFunctionSetup sample_h sample_target
             (buffer_of [0, 9, 0x04, 0x03, 0x02, 0x01, 0, 0]) (session_init sample_h)))))
       = 0x01020304
   \<and> prog_address_newmode (snd (usbFunctionSetup sample_h sample_target
          (buffer_of [0, 6, 0x99, 0x99, 0x40, 0x01, 0x40, 0])
          (snd (usbFunctionSetup sample_h sample_target
             (buffer_of [0, 9, 0x04, 0x03, 0x02, 0x01, 0, 0]) (session_init sample_h)))))
       \<noteq> 0"
proof -
  let ?d1 = "buffer_of [0, 9, 0x04, 0x03, 0x02, 0x01, 0, 0]"
  let ?d2 = "buffer_of [0, 6, 0x99, 0x99, 0x40, 0x01, 0x40, 0]"
  let ?s1 = "snd (usbFunctionSetup sample_h sample_target ?d1 (session_init sample_h))"
  have o1: "?d1 1 = USBASP_FUNC_SETLONGADDRESS sample_h"
    by (simp add: buffer_of_def sample_h_def)
  have o2: "?d2 1 = USBASP_FUNC_WRITEFLASH sample_h"
    by (simp add: buffer_of_def sample_h_def)
  have la: "long_address ?d1 = 0x01020304"
    by (simp add: long_address_def buffer_of_def)
  have nm: "prog_address_newmode ?s1 \<noteq> 0"
    using distinct_sample_opcodes o1 by (simp add: setup_SETLONGADDRESS)
  from C8_inline_address_ignored [of sample_h ?d1 ?d2 sample_target "session_init sample_h"]
    distinct_sample_opcodes o1 o2 la
  have a: "prog_address (snd (usbFunctionSetup sample_h sample_target ?d2 ?s1)) = 0x01020304"
    by simp
  from C8_inline_address_ignored [of sample_h ?d1 ?d2 sample_target ?s1]
    distinct_sample_opcodes o1 o2 nm
  have b: "prog_address_newmode (snd (usbFunctionSetup sample_h sample_target ?d2 ?s1)) \<noteq> 0"
    by simp
  from distinct_sample_opcodes o1 o2 nm a b show ?thesis
    by simp
qed

text \<open>
  C9. A descriptor whose opcode byte is none of the recognized opcodes changes no field of
  the session state (mode, clock option, address mode, address, remaining bytes, page size,
  block flags, page counter), calls nothing, leaves the reply buffer as it is and returns
  the length 0.
\<close>

theorem C9_unrecognized_opcode_noop:
  assumes "data 1 \<notin> set (opcodes c)"
  shows "fst (usbFunctionSetup c tg data s) = 0
       \<and> prog_state (snd (usbFunctionSetup c tg data s)) = prog_state s
       \<and> prog_sck (snd (usbFunctionSetup c tg data s)) = prog_sck s
       \<and> prog_address_newmode (snd (usbFunctionSetup c tg data s)) = prog_address_newmode s
       \<and> prog_address (snd (usbFunctionSetup c tg data s)) = prog_address s
       \<and> prog_nbytes (snd (usbFunctionSetup c tg data s)) = prog_nbytes s
       \<and> prog_pagesize (snd (usbFunctionSetup c tg data s)) = prog_pagesize s
       \<and> prog_blockflags (snd (usbFunctionSetup c tg data s)) = prog_blockflags s
       \<and> prog_pagecounter (snd (usbFunctionSetup c tg data s)) = prog_pagecounter s
       \<and> calls (snd (usbFunctionSetup c tg data s)) = calls s
       \<and> replyBuffer (snd (usbFunctionSetup c tg data s)) = replyBuffer s"
  using assms by (simp add: setup_unrecognized)

theorem C9_witness:
  "buffer_of [0, 0x2A, 1, 2, 3, 4, 5, 6] 1 \<notin> set (opcodes sample_h)
   \<and> fst (usbFunctionSetup sample_h sample_target (buffer_of [0, 0x2A, 1, 2, 3, 4, 5, 6])
            (session_init sample_h)) = 0
   \<and> prog_state (snd (usbFunctionSetup sample_h sample_target
            (buffer_of [0, 0x2A, 1, 2, 3, 4, 5, 6]) (session_init sample_h))) = PROG_STATE_IDLE"
proof -
  have h: "buffer_of [0, 0x2A, 1, 2, 3, 4, 5, 6] 1 \<notin> set (opcodes sample_h)"
    by (simp add: buffer_of_def opcodes_def sample_h_def)
  from C9_unrecognized_opcode_noop [of "buffer_of [0, 0x2A, 1, 2, 3, 4, 5, 6]" sample_h
      sample_target "session_init sample_h"] h
  show ?thesis by (simp add: session_init_def)
qed

text \<open>
  C10, as stated, fails for a write-chunk call that starts with a remaining byte count of 0,
  which the WriteFlash command with a byte count of 0 leaves behind: any chunk is longer
  than that count, but the count wraps on the first byte, the mode stays WriteFlash, and
  the bytes of the chunk go to ispWriteFlash, not to ispWriteEEPROM.
\<close>

theorem C10_counterexample:
  "prog_state sample_zero_write_start = PROG_STATE_WRITEFLASH
   \<and> prog_nbytes sample_zero_write_start = 0
   \<and> unat (prog_nbytes sample_zero_write_start) < unat (2::u8)
   \<and> calls sample_zero_write_start = []
   \<and> calls (snd (usbFunctionWrite sample_h (buffer_of [0xB1, 0xB2]) 2 sample_zero_write_start))
       = [IspWriteFlash 0 0xB1 1, IspWriteFlash 1 0xB2 1]
   \<and> prog_nbytes (snd (usbFunctionWrite sample_h (buffer_of [0xB1, 0xB2]) 1
          sample_zero_write_start)) = 0xFFFF
   \<and> prog_state (snd (usbFunctionWrite sample_h (buffer_of [0xB1, 0xB2]) 2
          sample_zero_write_start)) = PROG_STATE_WRITEFLASH
   \<and> prog_state (snd (usbFunctionWrite sample_h (buffer_of [0xB1, 0xB2]) 1
          sample_zero_write_start)) \<noteq> PROG_STATE_IDLE
   \<and> calls (snd (usbFunctionWrite sample_h (buffer_of [0xB1, 0xB2]) 2 sample_zero_write_start))
       \<noteq> calls (snd (usbFunctionWrite sample_h (buffer_of [0xB1, 0xB2]) 1
                   sample_zero_write_start))
           @ [IspWriteEEPROM (prog_address sample_zero_write_start + 1)
                (buffer_of [0xB1, 0xB2] 1)]"
  by code_simp

text \<open>
  C10. A write-chunk call in WriteFlash or WriteEeprom mode whose length exceeds the
  remaining byte count \<open>n\<close> goes through all its bytes: after \<open>k\<close> bytes the count is the
  initial one minus \<open>k\<close> modulo \<open>2^16\<close> and the address has advanced by \<open>k\<close>, for every \<open>k\<close>
  up to the length. When \<open>n > 0\<close>, the count is 0 after \<open>n\<close> bytes and 65535 after the next,
  and every byte from the one at offset \<open>n\<close> on meets the mode Idle and is written with one
  call of ispWriteEEPROM at its address. When \<open>n = 0\<close>, the count wraps to 65535 on the
  first byte and never reaches 0 during the call, the mode stays as it was, and every byte
  is first handed to the write path of that mode: ispWriteFlash in WriteFlash mode (with
  third argument 1 for an unpaged write, 0 for a paged one), ispWriteEEPROM in WriteEeprom
  mode.
\<close>

theorem C10_overrun:
  assumes "prog_state s = PROG_STATE_WRITEFLASH \<or> prog_state s = PROG_STATE_WRITEEEPROM"
    and "unat (prog_nbytes s) < unat len"
  shows "(\<forall>k. k \<le> unat len \<longrightarrow>
             usbFunctionWrite c data len s =
               write_loop c data len (of_nat k) (usbFunctionWrite c data (of_nat k) s)
           \<and> prog_nbytes (snd (usbFunctionWrite c data (of_nat k) s)) = prog_nbytes s - of_nat k
           \<and> prog_address (snd (usbFunctionWrite c data (of_nat k) s))
               = prog_address s + of_nat k)
       \<and> (0 < unat (prog_nbytes s) \<longrightarrow>
             prog_nbytes (snd (usbFunctionWrite c data (of_nat (unat (prog_nbytes s))) s)) = 0
           \<and> prog_nbytes (snd (usbFunctionWrite c data (of_nat (Suc (unat (prog_nbytes s)))) s))
               = 0xFFFF
           \<and> (\<forall>k. unat (prog_nbytes s) \<le> k \<and> k < unat len \<longrightarrow>
                 prog_state (snd (usbFunctionWrite c data (of_nat k) s)) = PROG_STATE_IDLE
               \<and> calls (snd (usbFunctionWrite c data (of_nat (Suc k)) s)) =
                   calls (snd (usbFunctionWrite c data (of_nat k) s))
                     @ [IspWriteEEPROM (prog_address s + of_nat k) (data k)]))
       \<and> (unat (prog_nbytes s) = 0 \<longrightarrow>
             prog_nbytes (snd (usbFunctionWrite c data (of_nat (Suc 0)) s)) = 0xFFFF
           \<and> (\<forall>k. k \<le> unat len \<longrightarrow>
                 prog_state (snd (usbFunctionWrite c data (of_nat k) s)) = prog_state s)
           \<and> (\<forall>k. k < unat len \<longrightarrow>
                 take (Suc (length (calls (snd (usbFunctionWrite c data (of_nat k) s)))))
                   (calls (snd (usbFunctionWrite c data (of_nat (Suc k)) s))) =
                   calls (snd (usbFunctionWrite c data (of_nat k) s))
                     @ [if prog_state s = PROG_STATE_WRITEFLASH
                        then IspWriteFlash (prog_address s + of_nat k) (data k)
                               (if prog_pagesize s = 0 then 1 else 0)
                        else IspWriteEEPROM (prog_address s + of_nat k) (data k)]))"
proof -
  let ?n = "unat (prog_nbytes s)"
  let ?after = "\<lambda>k. snd (usbFunctionWrite c data (of_nat k) s)"
  note f = write_prefix_facts [OF assms(1), where len = len and c = c and data = data]
  have n: "?n \<le> unat len" "Suc ?n \<le> unat len"
    using assms(2) by simp_all
  have all: "usbFunctionWrite c data len s =
               write_loop c data len (of_nat k) (usbFunctionWrite c data (of_nat k) s)
           \<and> prog_nbytes (?after k) = prog_nbytes s - of_nat k
           \<and> prog_address (?after k) = prog_address s + of_nat k" if "k \<le> unat len" for k
    using that assms(1) by (simp add: f usbFunctionWrite_resume [symmetric])
  have zero: "prog_nbytes (?after ?n) = 0"
    by (simp only: f(1) [OF n(1)]) simp
  have wrap: "prog_nbytes (?after (Suc ?n)) = 0xFFFF"
    by (simp only: f(1) [OF n(2)]) simp
  have tail: "prog_state (?after k) = PROG_STATE_IDLE
      \<and> calls (?after (Suc k)) = calls (?after k) @ [IspWriteEEPROM (prog_address s + of_nat k) (data k)]"
    if pos: "0 < ?n" and k: "?n \<le> k" "k < unat len" for k
  proof -
    have kl: "k \<le> unat len"
      using k by simp
    have idle: "prog_state (?after k) = PROG_STATE_IDLE"
      using pos k by (simp add: f(3) [OF kl])
    have "k < 65535"
      using k unat_u8_less [of len] by simp
    then have "prog_nbytes s - of_nat k = 1 \<longleftrightarrow> ?n = Suc k"
      by (rule nbytes_hits_one)
    with k have ne: "prog_nbytes (?after k) \<noteq> 1"
      by (simp add: f(1) [OF kl])
    have "calls (?after (Suc k)) = calls (?after k) @ [IspWriteEEPROM (prog_address (?after k)) (data k)]"
      using idle ne
      by (simp only: usbFunctionWrite_next [OF assms(1) k(2)])
         (simp add: write_byte_not_flash(1))
    with idle show ?thesis
      by (simp add: f(2) [OF kl])
  qed
  have none: "prog_state (?after k) = prog_state s" if "?n = 0" "k \<le> unat len" for k
    using that by (simp add: f(3))
  have wrap0: "prog_nbytes (?after (Suc 0)) = 0xFFFF" if "?n = 0"
    using that wrap by (simp add: unat_eq_zero)
  have first: "take (Suc (length (calls (?after k)))) (calls (?after (Suc k))) =
       calls (?after k)
         @ [if prog_state s = PROG_STATE_WRITEFLASH
            then IspWriteFlash (prog_address s + of_nat k) (data k)
                   (if prog_pagesize s = 0 then 1 else 0)
            else IspWriteEEPROM (prog_address s + of_nat k) (data k)]"
    if z: "?n = 0" and k: "k < unat len" for k
  proof -
    have kl: "k \<le> unat len"
      using k by simp
    have st: "prog_state (?after k) = prog_state s"
      using z kl by (rule none)
    have ad: "prog_address (?after k) = prog_address s + of_nat k"
      by (rule f(2) [OF kl])
    have ps: "prog_pagesize (?after k) = prog_pagesize s"
      using assms(1) kl by (rule write_prefix_pagesize)
    show ?thesis
      by (simp only: usbFunctionWrite_next [OF assms(1) k] write_byte_first_call st ad ps)
  qed
  from all zero wrap tail none wrap0 first show ?thesis
    by blast
qed

theorem C10_witness:
  "(prog_state sample_flash_write_start = PROG_STATE_WRITEFLASH
      \<or> prog_state sample_flash_write_start = PROG_STATE_WRITEEEPROM)
   \<and> unat (prog_nbytes sample_flash_write_start) < unat (4::u8)
   \<and> 0 < unat (prog_nbytes sample_flash_write_start)
   \<and> prog_nbytes (snd (usbFunctionWrite sample_h (buffer_of [0xB1, 0xB2, 0xB3, 0xB4]) 3
          sample_flash_write_start)) = 0xFFFF
   \<and> prog_address (snd (usbFunctionWrite sample_h (buffer_of [0xB1, 0xB2, 0xB3, 0xB4]) 4
          sample_flash_write_start)) = 4
   \<and> calls (snd (usbFunctionWrite sample_h (buffer_of [0xB1, 0xB2, 0xB3, 0xB4]) 4
          sample_flash_write_start))
       = [IspWriteFlash 0 0xB1 1, IspWriteFlash 1 0xB2 1, IspWriteEEPROM 2 0xB3,
          IspWriteEEPROM 3 0xB4]
   \<and> (prog_state sample_zero_write_start = PROG_STATE_WRITEFLASH
      \<or> prog_state sample_zero_write_start = PROG_STATE_WRITEEEPROM)
   \<and> unat (prog_nbytes sample_zero_write_start) < unat (2::u8)
   \<and> unat (prog_nbytes sample_zero_write_start) = 0
   \<and> prog_state (snd (usbFunctionWrite sample_h (buffer_of [0xB1, 0xB2]) 2
          sample_zero_write_start)) = PROG_STATE_WRITEFLASH
   \<and> take 2 (calls (snd (usbFunctionWrite sample_h (buffer_of [0xB1, 0xB2]) 2
          sample_zero_write_start)))
       = [IspWriteFlash 0 0xB1 1, IspWriteFlash 1 0xB2 1]"
proof -
  let ?d = "buffer_of [0xB1, 0xB2, 0xB3, 0xB4]"
  have m: "prog_state sample_flash_write_start = PROG_STATE_WRITEFLASH"
    by code_simp
  have n: "prog_nbytes sample_flash_write_start = 2"
    by code_simp
  have a: "prog_address sample_flash_write_start = 0"
    by code_simp
  have c3: "calls (snd (usbFunctionWrite sample_h ?d 3 sample_flash_write_start))
       = [IspWriteFlash 0 0xB1 1, IspWriteFlash 1 0xB2 1, IspWriteEEPROM 2 0xB3]"
    by code_simp
  have d3: "?d 3 = 0xB4"
    by (simp add: buffer_of_def)
  have lt: "unat (prog_nbytes sample_flash_write_start) < unat (4::u8)"
    by (simp add: n)
  have pos: "0 < unat (prog_nbytes sample_flash_write_start)"
    by (simp add: n)
  note r = C10_overrun [where s = sample_flash_write_start and c = sample_h
      and data = ?d and len = 4, OF disjI1 [OF m] lt]
  note rp = r [THEN conjunct2, THEN conjunct1, THEN mp, OF pos]
  from rp [THEN conjunct2, THEN conjunct1]
  have w: "prog_nbytes (snd (usbFunctionWrite sample_h ?d 3
          sample_flash_write_start)) = 0xFFFF"
    by (simp add: n)
  have k3: "unat (prog_nbytes sample_flash_write_start) \<le> 3 \<and> (3::nat) < unat (4::u8)"
    by (simp add: n)
  from rp [THEN conjunct2, THEN conjunct2, THEN spec [where x = "3::nat"], THEN mp, OF k3,
      THEN conjunct2]
  have c4: "calls (snd (usbFunctionWrite sample_h ?d 4 sample_flash_write_start))
       = [IspWriteFlash 0 0xB1 1, IspWriteFlash 1 0xB2 1, IspWriteEEPROM 2 0xB3,
          IspWriteEEPROM 3 0xB4]"
    by (simp add: c3 a d3)
  have k4: "(4::nat) \<le> unat (4::u8)"
    by simp
  from r [THEN conjunct1, THEN spec [where x = "4::nat"], THEN mp, OF k4,
      THEN conjunct2, THEN conjunct2]
  have a4: "prog_address (snd (usbFunctionWrite sample_h ?d 4
          sample_flash_write_start)) = 4"
    by (simp add: a)
  let ?e = "buffer_of [0xB1, 0xB2]"
  have m0: "prog_state sample_zero_write_start = PROG_STATE_WRITEFLASH"
    by code_simp
  have n0: "prog_nbytes sample_zero_write_start = 0"
    by code_simp
  have a0: "prog_address sample_zero_write_start = 0"
    by code_simp
  have p0: "prog_pagesize sample_zero_write_start = 0"
    by code_simp
  have c1: "calls (snd (usbFunctionWrite sample_h ?e 1 sample_zero_write_start))
       = [IspWriteFlash 0 0xB1 1]"
    by code_simp
  have e1: "?e (Suc 0) = 0xB2"
    by (simp add: buffer_of_def)
  have lt0: "unat (prog_nbytes sample_zero_write_start) < unat (2::u8)"
    by (simp add: n0)
  have z0: "unat (prog_nbytes sample_zero_write_start) = 0"
    by (simp add: n0)
  note q = C10_overrun [where s = sample_zero_write_start and c = sample_h
      and data = ?e and len = 2, OF disjI1 [OF m0] lt0, THEN conjunct2, THEN conjunct2,
      THEN mp, OF z0]
  have k2: "(2::nat) \<le> unat (2::u8)"
    by simp
  from q [THEN conjunct2, THEN conjunct1, THEN spec [where x = "2::nat"], THEN mp, OF k2]
  have s2: "prog_state (snd (usbFunctionWrite sample_h ?e 2 sample_zero_write_start))
      = PROG_STATE_WRITEFLASH"
    by (simp add: m0)
  have k1: "(1::nat) < unat (2::u8)"
    by simp
  from q [THEN conjunct2, THEN conjunct2, THEN spec [where x = "1::nat"], THEN mp, OF k1]
  have t2: "take 2 (calls (snd (usbFunctionWrite sample_h ?e 2 sample_zero_write_start)))
       = [IspWriteFlash 0 0xB1 1, IspWriteFlash 1 0xB2 1]"
    by (simp add: c1 m0 a0 p0 e1 numeral_2_eq_2)
  from m n w a4 c4 m0 n0 s2 t2 show ?thesis
    by simp
qed

end
